theory Spec2Isabelle
  imports Complex_Main "HOL-Library.Word" "HOL-Library.Sublist"
begin

unbundle bit_operations_syntax

section \<open>Go values\<close>

text \<open>
  A Go string is a sequence of bytes and \<^verbatim>\<open>len\<close> counts bytes, so a Go string is a
  \<^typ>\<open>string\<close> (a list of 8-bit characters).  Go's \<^verbatim>\<open>int\<close> is a 64-bit two's
  complement integer: values are modelled as \<^typ>\<open>int\<close> and the two sums of
  \<^verbatim>\<open>chunkText\<close> that could leave the range are wrapped by \<open>wrap64\<close>.
\<close>

definition wrap64 :: "int \<Rightarrow> int" where
  "wrap64 x = (x + 2 ^ 63) mod 2 ^ 64 - 2 ^ 63"

definition go_div :: "int \<Rightarrow> int \<Rightarrow> int" where
  \<comment> \<open>Go's integer division truncates toward zero.\<close>
  "go_div a b = sgn a * sgn b * (\<bar>a\<bar> div \<bar>b\<bar>)"

datatype panic = SliceBounds

definition slice :: "string \<Rightarrow> int \<Rightarrow> int \<Rightarrow> panic + string" where
  \<comment> \<open>\<^verbatim>\<open>s[lo:hi]\<close>: a run-time panic unless \<open>0 \<le> lo \<le> hi \<le> len(s)\<close>.\<close>
  "slice s lo hi =
     (if 0 \<le> lo \<and> lo \<le> hi \<and> hi \<le> int (length s)
      then Inr (take (nat (hi - lo)) (drop (nat lo) s))
      else Inl SliceBounds)"

fun LastIndex :: "string \<Rightarrow> char \<Rightarrow> int" where
  \<comment> \<open>\<^verbatim>\<open>strings.LastIndex(s, " ")\<close> for a one-byte separator: the index of its last
      occurrence, or -1.\<close>
  "LastIndex [] c = -1"
| "LastIndex (x # xs) c =
     (let r = LastIndex xs c in if 0 \<le> r then r + 1 else if x = c then 0 else -1)"

subsection \<open>strings.TrimSpace\<close>

text \<open>
  \<^verbatim>\<open>strings.TrimSpace\<close> removes leading and trailing white space as Unicode defines
  it.  On the UTF-8 bytes of a Go string the white-space code points are exactly the byte
  sequences of \<open>spaceRunes\<close>: the six ASCII ones, U+0085, U+00A0, U+1680,
  U+2000 to U+200A, U+2028, U+2029, U+202F, U+205F and U+3000.  A byte that starts none
  of them, also one that is not valid UTF-8, is kept.
\<close>

definition spaceRunes :: "string list" where
  "spaceRunes =
     [[CHR 0x09], [CHR 0x0A], [CHR 0x0B], [CHR 0x0C], [CHR 0x0D], [CHR 0x20],
      [CHR 0xC2, CHR 0x85], [CHR 0xC2, CHR 0xA0],
      [CHR 0xE1, CHR 0x9A, CHR 0x80],
      [CHR 0xE2, CHR 0x80, CHR 0x80], [CHR 0xE2, CHR 0x80, CHR 0x81],
      [CHR 0xE2, CHR 0x80, CHR 0x82], [CHR 0xE2, CHR 0x80, CHR 0x83],
      [CHR 0xE2, CHR 0x80, CHR 0x84], [CHR 0xE2, CHR 0x80, CHR 0x85],
      [CHR 0xE2, CHR 0x80, CHR 0x86], [CHR 0xE2, CHR 0x80, CHR 0x87],
      [CHR 0xE2, CHR 0x80, CHR 0x88], [CHR 0xE2, CHR 0x80, CHR 0x89],
      [CHR 0xE2, CHR 0x80, CHR 0x8A],
      [CHR 0xE2, CHR 0x80, CHR 0xA8], [CHR 0xE2, CHR 0x80, CHR 0xA9],
      [CHR 0xE2, CHR 0x80, CHR 0xAF], [CHR 0xE2, CHR 0x81, CHR 0x9F],
      [CHR 0xE3, CHR 0x80, CHR 0x80]]"

function stripRunes :: "string list \<Rightarrow> string \<Rightarrow> string" where
  \<comment> \<open>Drops leading occurrences of the given non-empty byte sequences.\<close>
  "stripRunes rs s =
     (case find (\<lambda>q. q \<noteq> [] \<and> prefix q s) rs of
        None \<Rightarrow> s
      | Some q \<Rightarrow> stripRunes rs (drop (length q) s))"
  by pat_completeness auto
termination
proof (relation "measure (\<lambda>(rs, s). length s)")
  show "wf (measure (\<lambda>(rs, s). length s))" by simp
next
  fix rs :: "string list" and s q :: string
  assume "find (\<lambda>q. q \<noteq> [] \<and> prefix q s) rs = Some q"
  then have "q \<noteq> []" and "prefix q s"
    by (auto simp: find_Some_iff)
  then have "s \<noteq> []" by auto
  with \<open>q \<noteq> []\<close> show "((rs, drop (length q) s), (rs, s)) \<in> measure (\<lambda>(rs, s). length s)"
    by simp
qed

definition TrimSpace :: "string \<Rightarrow> string" where
  "TrimSpace s = rev (stripRunes (map rev spaceRunes) (rev (stripRunes spaceRunes s)))"

section \<open>The chunker (internal/goldie/goldie.go)\<close>

record Goldie =
  chunkSize :: int
  chunkOverlap :: int

definition chunkEnd :: "Goldie \<Rightarrow> string \<Rightarrow> int \<Rightarrow> panic + int" where
  \<comment> \<open>The end of the chunk that starts at \<open>start\<close>: the window's end, moved back to the last
      space of the window when the text goes on and that space lies past the midpoint.\<close>
  "chunkEnd r text start =
     (let end0 = min (wrap64 (start + chunkSize r)) (int (length text)) in
      if end0 < int (length text) then
        (case slice text start end0 of
           Inl p \<Rightarrow> Inl p
         | Inr w \<Rightarrow>
             (let lastSpace = LastIndex w (CHR '' '') in
              if go_div (chunkSize r) 2 < lastSpace then Inr (start + lastSpace) else Inr end0))
      else Inr end0)"

definition nextStart :: "Goldie \<Rightarrow> int \<Rightarrow> int \<Rightarrow> int" where
  \<comment> \<open>"Move start forward, ensuring progress".\<close>
  "nextStart r start endpos =
     (let newStart0 = wrap64 (endpos - chunkOverlap r);
          newStart1 = (if newStart0 \<le> start then endpos else newStart0)
      in if newStart1 < 0 then 0 else newStart1)"

lemma slice_bounds: "slice s lo hi = Inr w \<Longrightarrow> 0 \<le> lo \<and> lo \<le> hi \<and> hi \<le> int (length s)"
  by (simp add: slice_def split: if_splits)

lemma nextStart_ge: "0 \<le> start \<Longrightarrow> start \<le> endpos \<Longrightarrow> start \<le> nextStart r start endpos"
  by (simp add: nextStart_def Let_def)

function chunkLoop :: "Goldie \<Rightarrow> string \<Rightarrow> string list \<Rightarrow> int \<Rightarrow> int \<Rightarrow> panic + string list" where
  "chunkLoop r text chunks start prevStart =
     (if start < int (length text) then
        if start = prevStart then Inr chunks
        else
          (case chunkEnd r text start of
             Inl p \<Rightarrow> Inl p
           | Inr endpos \<Rightarrow>
               (case slice text start endpos of
                  Inl p \<Rightarrow> Inl p
                | Inr w \<Rightarrow>
                    (let chunk = TrimSpace w;
                         chunks' = (if 0 < length chunk then chunks @ [chunk] else chunks);
                         newStart = nextStart r start endpos
                     in if 10000 < length chunks' then Inr chunks'
                        else chunkLoop r text chunks' newStart start)))
      else Inr chunks)"
  by pat_completeness auto
termination
proof (relation "measure (\<lambda>(r, text, chunks, start, prevStart).
          2 * nat (int (length text) - start) + (if start = prevStart then 0 else 1))")
  show "wf (measure (\<lambda>(r, text, chunks, start, prevStart).
          2 * nat (int (length text) - start) + (if start = prevStart then 0 else 1)))"
    by simp
next
  fix r :: Goldie and t :: string and chunks :: "string list" and start prevStart endpos :: int
    and w chunk :: string and chunks' :: "string list" and newStart :: int
  assume lt: "start < int (length t)" and ne: "start \<noteq> prevStart"
    and sl: "slice t start endpos = Inr w"
    and ns: "newStart = nextStart r start endpos"
  from sl have "0 \<le> start" "start \<le> endpos" using slice_bounds by blast+
  then have "start \<le> newStart" using ns nextStart_ge by simp
  with lt ne
  show "((r, t, chunks', newStart, start), (r, t, chunks, start, prevStart))
        \<in> measure (\<lambda>(r, text, chunks, start, prevStart).
          2 * nat (int (length text) - start) + (if start = prevStart then 0 else 1))"
    by auto
qed

definition chunkText :: "Goldie \<Rightarrow> string \<Rightarrow> panic + string list" where
  "chunkText r text =
     (if int (length text) \<le> chunkSize r then Inr [text]
      else chunkLoop r text [] 0 (- 1))"

declare chunkLoop.simps [simp del]
declare stripRunes.simps [simp del]

definition int64 :: "int \<Rightarrow> bool" where
  "int64 x = (- (2 ^ 63) \<le> x \<and> x < 2 ^ 63)"

lemma wrap64_id: "- (2 ^ 63) \<le> x \<Longrightarrow> x < 2 ^ 63 \<Longrightarrow> wrap64 x = x"
  by (simp add: wrap64_def)

lemma wrap64_range: "- (2 ^ 63) \<le> wrap64 x \<and> wrap64 x < 2 ^ 63"
proof -
  have "0 \<le> (x + 2 ^ 63) mod (2 ^ 64 :: int)" "(x + 2 ^ 63) mod (2 ^ 64 :: int) < 2 ^ 64"
    by simp_all
  moreover have "(2 :: int) ^ 64 = 2 * 2 ^ 63" by simp
  ultimately show ?thesis unfolding wrap64_def by linarith
qed

lemma wrap64_over: "2 ^ 63 \<le> x \<Longrightarrow> x < 2 ^ 63 + 2 ^ 64 \<Longrightarrow> wrap64 x = x - 2 ^ 64"
proof -
  assume a: "2 ^ 63 \<le> x" "x < 2 ^ 63 + 2 ^ 64"
  have "(x + 2 ^ 63) mod 2 ^ 64 = (x + 2 ^ 63 - 2 ^ 64) mod 2 ^ 64"
    by (simp only: minus_mod_self2)
  also from a have "\<dots> = x + 2 ^ 63 - 2 ^ 64"
    by (intro mod_pos_pos_trivial) simp_all
  finally show ?thesis by (simp add: wrap64_def)
qed

lemma wrap64_cases:
  "wrap64 x = x \<or> (2 ^ 63 \<le> x \<and> wrap64 x < x) \<or> (x < - (2 ^ 63) \<and> x < wrap64 x)"
  using wrap64_id [of x] wrap64_range [of x] by linarith

lemma LastIndex_bounds: "- 1 \<le> LastIndex s c \<and> LastIndex s c < int (length s)"
  by (induction s) (auto simp: Let_def)

lemma stripRunes_length: "length (stripRunes rs s) \<le> length s"
proof (induction rs s rule: stripRunes.induct)
  case (1 rs s)
  show ?case
  proof (cases "find (\<lambda>q. q \<noteq> [] \<and> prefix q s) rs")
    case None
    then show ?thesis by (simp add: stripRunes.simps [of rs s])
  next
    case (Some q)
    with 1 have "length (stripRunes rs (drop (length q) s)) \<le> length (drop (length q) s)"
      by simp
    with Some show ?thesis by (simp add: stripRunes.simps [of rs s])
  qed
qed

lemma TrimSpace_length: "length (TrimSpace s) \<le> length s"
proof -
  have "length (TrimSpace s) \<le> length (rev (stripRunes spaceRunes s))"
    unfolding TrimSpace_def
    using stripRunes_length [of "map rev spaceRunes" "rev (stripRunes spaceRunes s)"] by simp
  also have "\<dots> \<le> length s" using stripRunes_length by simp
  finally show ?thesis .
qed

lemma stripRunes_none: "find (\<lambda>q. q \<noteq> [] \<and> prefix q s) rs = None \<Longrightarrow> stripRunes rs s = s"
  by (simp add: stripRunes.simps [of rs s])

lemma TrimSpace_replicate_x: "TrimSpace (replicate n (CHR ''x'')) = replicate n (CHR ''x'')"
proof (cases n)
  case 0
  then show ?thesis
    by (simp add: TrimSpace_def stripRunes_none spaceRunes_def)
next
  case (Suc m)
  have a: "stripRunes spaceRunes (replicate (Suc m) (CHR ''x'')) = replicate (Suc m) (CHR ''x'')"
    by (rule stripRunes_none) (simp add: spaceRunes_def)
  have b: "stripRunes (map rev spaceRunes) (replicate (Suc m) (CHR ''x'')) = replicate (Suc m) (CHR ''x'')"
    by (rule stripRunes_none) (simp add: spaceRunes_def)
  show ?thesis unfolding TrimSpace_def Suc a rev_replicate b ..
qed

lemma LastIndex_replicate_x: "LastIndex (replicate n (CHR ''x'')) (CHR '' '') = - 1"
  by (induction n) (simp_all add: Let_def)


lemma go_div_2: "0 \<le> a \<Longrightarrow> go_div a 2 = a div 2"
  by (cases "a = 0") (simp_all add: go_div_def)

lemma go_div_2_neg: "a < 0 \<Longrightarrow> a \<le> go_div a 2"
  by (simp add: go_div_def)

lemma chunkEnd_cases:
  assumes "chunkEnd r t start = Inr e"
  shows "(e = min (wrap64 (start + chunkSize r)) (int (length t)) \<and>
            (e < int (length t) \<longrightarrow> 0 \<le> start \<and> start \<le> e))
         \<or> (\<exists>k. e = start + k \<and> go_div (chunkSize r) 2 < k \<and> 0 \<le> start
                \<and> start + k < min (wrap64 (start + chunkSize r)) (int (length t))
                \<and> wrap64 (start + chunkSize r) < int (length t))"
proof -
  define end0 where "end0 = min (wrap64 (start + chunkSize r)) (int (length t))"
  show ?thesis
  proof (cases "end0 < int (length t)")
    case False
    with assms show ?thesis by (simp add: chunkEnd_def end0_def Let_def)
  next
    case True
    from assms have ce: "(if end0 < int (length t) then
        (case slice t start end0 of
           Inl p \<Rightarrow> Inl p
         | Inr w \<Rightarrow>
             (let lastSpace = LastIndex w (CHR '' '') in
              if go_div (chunkSize r) 2 < lastSpace then Inr (start + lastSpace) else Inr end0))
      else Inr end0) = Inr e"
      unfolding chunkEnd_def end0_def Let_def by simp
    with True obtain w where w: "slice t start end0 = Inr w"
      by (cases "slice t start end0") auto
    then have b: "0 \<le> start" "start \<le> end0" and lw: "int (length w) = end0 - start"
      by (auto simp: slice_def split: if_splits)
    from LastIndex_bounds [of w "CHR '' ''"] lw
    have k: "LastIndex w (CHR '' '') < end0 - start" by simp
    from ce True w
    have "e = end0 \<or> (e = start + LastIndex w (CHR '' '') \<and> go_div (chunkSize r) 2 < LastIndex w (CHR '' ''))"
      by (auto simp: Let_def split: if_splits)
    then show ?thesis
    proof
      assume "e = end0"
      with b True show ?thesis unfolding end0_def by simp
    next
      assume sp: "e = start + LastIndex w (CHR '' '') \<and> go_div (chunkSize r) 2 < LastIndex w (CHR '' '')"
      from True have "wrap64 (start + chunkSize r) < int (length t)"
        by (simp add: end0_def)
      with sp b k have "e = start + LastIndex w (CHR '' '') \<and> go_div (chunkSize r) 2 < LastIndex w (CHR '' '') \<and> 0 \<le> start
                \<and> start + LastIndex w (CHR '' '') < min (wrap64 (start + chunkSize r)) (int (length t))
                \<and> wrap64 (start + chunkSize r) < int (length t)"
        unfolding end0_def by simp
      then show ?thesis by blast
    qed
  qed
qed

lemma chunkEnd_le_length: "chunkEnd r t start = Inr e \<Longrightarrow> e \<le> int (length t)"
  using chunkEnd_cases [of r t start e] by auto

lemma chunkEnd_progress:
  assumes e: "chunkEnd r t start = Inr e" and lt: "start < int (length t)"
    and S: "int64 (chunkSize r)" and len: "int (length t) < 2 ^ 63"
  shows "start < e \<or> (e = start \<and> chunkSize r = 0 \<and> 0 \<le> start)"
proof -
  let ?S = "chunkSize r"
  from chunkEnd_cases [OF e] consider
    (win) "e = min (wrap64 (start + ?S)) (int (length t))" "e < int (length t) \<longrightarrow> 0 \<le> start \<and> start \<le> e"
  | (sp) k where "e = start + k" "go_div ?S 2 < k" "0 \<le> start"
      "start + k < min (wrap64 (start + ?S)) (int (length t))" by blast
  then show ?thesis
  proof cases
    case win
    show ?thesis
    proof (cases "e < int (length t)")
      case False
      with win lt show ?thesis by simp
    next
      case True
      with win have s0: "0 \<le> start" "start \<le> e" and ew: "e = wrap64 (start + ?S)" by auto
      from S s0 lt have "- (2 ^ 63) \<le> start + ?S" by (simp add: int64_def)
      with wrap64_cases [of "start + ?S"] have "wrap64 (start + ?S) \<le> start + ?S" by linarith
      with ew s0 have "0 \<le> ?S" by simp
      show ?thesis
      proof (cases "?S = 0")
        case True
        with s0 ew lt wrap64_range [of e] wrap64_cases [of start] show ?thesis by auto
      next
        case False
        with \<open>0 \<le> ?S\<close> have "1 \<le> ?S" by simp
        have "start < 2 ^ 63" using ew s0 wrap64_range [of "start + ?S"] by linarith
        with S have "start + ?S < 2 ^ 63 + 2 ^ 64" by (simp add: int64_def)
        with wrap64_over [of "start + ?S"] wrap64_id [of "start + ?S"] \<open>- (2 ^ 63) \<le> start + ?S\<close>
        have "wrap64 (start + ?S) = start + ?S \<or> wrap64 (start + ?S) = start + ?S - 2 ^ 64"
          by linarith
        with S \<open>1 \<le> ?S\<close> ew s0 show ?thesis unfolding int64_def by auto
      qed
    qed
  next
    case sp
    have "0 \<le> ?S \<or> ?S < 0" by linarith
    then show ?thesis
    proof
      assume "0 \<le> ?S"
      then have "0 \<le> go_div ?S 2" by (simp add: go_div_2)
      with sp show ?thesis by simp
    next
      assume neg: "?S < 0"
      with S sp(3) have "- (2 ^ 63) \<le> start + ?S" "start + ?S < 2 ^ 63" using lt len
        by (simp_all add: int64_def)
      then have "wrap64 (start + ?S) = start + ?S" by (rule wrap64_id)
      with sp neg go_div_2_neg [of ?S] have False by simp
      then show ?thesis ..
    qed
  qed
qed

lemma nextStart_nonneg: "0 \<le> nextStart r start endpos"
  by (simp add: nextStart_def Let_def)

lemma nextStart_in_range:
  assumes "0 \<le> e" "e < 2 ^ 62" "- (2 ^ 62) \<le> chunkOverlap r" "chunkOverlap r < 2 ^ 63" "0 \<le> start" "start \<le> e"
  shows "nextStart r start e = (if e - chunkOverlap r \<le> start then e else e - chunkOverlap r)"
proof -
  from assms have "wrap64 (e - chunkOverlap r) = e - chunkOverlap r"
    by (intro wrap64_id) simp_all
  with assms show ?thesis by (simp add: nextStart_def Let_def)
qed

lemma chunkEnd_ok:
  assumes "0 \<le> start" "start < int (length t)" "0 \<le> chunkSize r" "start + chunkSize r < 2 ^ 63"
  shows "\<exists>e. chunkEnd r t start = Inr e \<and> start \<le> e \<and> e \<le> int (length t)"
proof -
  from assms have w: "wrap64 (start + chunkSize r) = start + chunkSize r"
    by (intro wrap64_id) simp_all
  define end0 where "end0 = min (start + chunkSize r) (int (length t))"
  with assms have b: "0 \<le> start" "start \<le> end0" "end0 \<le> int (length t)" by simp_all
  then obtain w' where sl: "slice t start end0 = Inr w'" by (simp add: slice_def)
  then have lw: "int (length w') = end0 - start" using b by (auto simp: slice_def)
  have li: "LastIndex w' (CHR '' '') < end0 - start" using LastIndex_bounds [of w' "CHR '' ''"] lw by simp
  have gd: "0 \<le> go_div (chunkSize r) 2" using assms by (simp add: go_div_2)
  have "chunkEnd r t start = Inr end0 \<or>
        (chunkEnd r t start = Inr (start + LastIndex w' (CHR '' '')) \<and> go_div (chunkSize r) 2 < LastIndex w' (CHR '' ''))"
    unfolding chunkEnd_def w end0_def [symmetric] Let_def using sl by simp
  with b li gd show ?thesis by auto
qed

lemma chunkLoop_returns:
  "0 \<le> chunkSize r \<Longrightarrow> chunkSize r < 2 ^ 62 \<Longrightarrow> int (length t) < 2 ^ 62 \<Longrightarrow> 0 \<le> start
   \<Longrightarrow> \<exists>cs. chunkLoop r t chunks start prevStart = Inr cs"
proof (induction r t chunks start prevStart rule: chunkLoop.induct)
  case (1 r t chunks start prevStart)
  show ?case
  proof (cases "start < int (length t) \<and> start \<noteq> prevStart")
    case False
    then show ?thesis by (auto simp: chunkLoop.simps [of r t chunks start prevStart])
  next
    case True
    then have lt: "start < int (length t)" and ne: "start \<noteq> prevStart" by simp_all
    from 1(2-5) lt have "start + chunkSize r < 2 ^ 63" by simp
    with chunkEnd_ok [of start t r] 1(2,5) lt
    obtain e where ce: "chunkEnd r t start = Inr e" and b: "start \<le> e" "e \<le> int (length t)"
      by blast
    with 1(5) obtain w where sl: "slice t start e = Inr w" by (simp add: slice_def)
    define chunks' where "chunks' = (if 0 < length (TrimSpace w) then chunks @ [TrimSpace w] else chunks)"
    show ?thesis
    proof (cases "10000 < length chunks'")
      case True
      with lt ne ce sl show ?thesis
        by (simp add: chunkLoop.simps [of r t chunks start prevStart] chunks'_def Let_def)
    next
      case False
      from "1.IH" [OF lt ne ce sl refl chunks'_def refl False] 1(2-4) nextStart_nonneg
      obtain cs where "chunkLoop r t chunks' (nextStart r start e) start = Inr cs" by blast
      with lt ne ce sl False show ?thesis
        by (simp add: chunkLoop.simps [of r t chunks start prevStart] chunks'_def Let_def)
    qed
  qed
qed

lemma chunkText_returns:
  assumes "0 \<le> chunkSize r" "int (length t) < 2 ^ 62"
  shows "\<exists>cs. chunkText r t = Inr cs"
proof (cases "int (length t) \<le> chunkSize r")
  case True
  then show ?thesis by (simp add: chunkText_def)
next
  case False
  with assms have "chunkSize r < 2 ^ 62" by simp
  from chunkLoop_returns [OF assms(1) this assms(2), of 0 "[]" "- 1"] False
  show ?thesis by (simp add: chunkText_def)
qed

lemma chunkText_negative_size:
  assumes "chunkSize r < 0" "int64 (chunkSize r)" "t \<noteq> []"
  shows "chunkText r t = Inl SliceBounds"
proof -
  from assms have w: "wrap64 (0 + chunkSize r) = chunkSize r"
    by (simp add: wrap64_id int64_def)
  from assms have "chunkEnd r t 0 = Inl SliceBounds"
    unfolding chunkEnd_def w Let_def by (simp add: slice_def)
  with assms show ?thesis
    by (simp add: chunkText_def chunkLoop.simps [of r t "[]" 0 "- 1"])
qed

definition defaultGoldie :: Goldie where
  "defaultGoldie = \<lparr>chunkSize = 1000, chunkOverlap = 200\<rparr>"

lemma slice_replicate:
  "0 \<le> lo \<Longrightarrow> lo \<le> hi \<Longrightarrow> hi \<le> int n \<Longrightarrow> slice (replicate n x) lo hi = Inr (replicate (nat (hi - lo)) x)"
  by (auto simp: slice_def min_def)

lemma chunkEnd_replicate_x:
  assumes "0 \<le> start" "0 \<le> chunkSize r" "start + chunkSize r \<le> int n" "int n < 2 ^ 63"
  shows "chunkEnd r (replicate n (CHR ''x'')) start = Inr (start + chunkSize r)"
proof -
  from assms have w: "wrap64 (start + chunkSize r) = start + chunkSize r"
    by (intro wrap64_id) simp_all
  from assms have m: "min (start + chunkSize r) (int (length (replicate n (CHR ''x'')))) = start + chunkSize r"
    by simp
  from assms have sl: "slice (replicate n (CHR ''x'')) start (start + chunkSize r) = Inr (replicate (nat (chunkSize r)) (CHR ''x''))"
    using slice_replicate [of start "start + chunkSize r" n] by simp
  from assms have gd: "0 \<le> go_div (chunkSize r) 2" by (simp add: go_div_2)
  show ?thesis
    unfolding chunkEnd_def w m Let_def sl using gd by (simp add: LastIndex_replicate_x)
qed

lemma chunkLoop_replicate_x:
  "k = 10000 - length chunks \<Longrightarrow> length chunks \<le> 10000 \<Longrightarrow> start \<noteq> prevStart \<Longrightarrow> 0 \<le> start
   \<Longrightarrow> start + 800 * int k + 1000 \<le> int n \<Longrightarrow> int n < 2 ^ 62
   \<Longrightarrow> \<exists>cs. chunkLoop defaultGoldie (replicate n (CHR ''x'')) chunks start prevStart = Inr cs
          \<and> length cs = 10001"
proof (induction k arbitrary: chunks start prevStart)
  case 0
  let ?t = "replicate n (CHR ''x'')"
  from 0 have len: "length chunks = 10000" by simp
  from 0 have lt: "start < int (length ?t)" by simp
  from 0 have ce: "chunkEnd defaultGoldie ?t start = Inr (start + 1000)"
    using chunkEnd_replicate_x [of start defaultGoldie n] by (simp add: defaultGoldie_def)
  from 0 have sl: "slice ?t start (start + 1000) = Inr (replicate 1000 (CHR ''x''))"
    using slice_replicate [of start "start + 1000" n] by simp
  show ?case
    using lt 0(3) len
    by (simp add: chunkLoop.simps [of defaultGoldie ?t chunks start prevStart] ce sl
        TrimSpace_replicate_x Let_def)
next
  case (Suc k)
  let ?t = "replicate n (CHR ''x'')"
  let ?c = "replicate 1000 (CHR ''x'')"
  from Suc.prems have len: "length chunks < 10000" by simp
  from Suc.prems have lt: "start < int (length ?t)" by simp
  from Suc.prems have ce: "chunkEnd defaultGoldie ?t start = Inr (start + 1000)"
    using chunkEnd_replicate_x [of start defaultGoldie n] by (simp add: defaultGoldie_def)
  from Suc.prems have sl: "slice ?t start (start + 1000) = Inr ?c"
    using slice_replicate [of start "start + 1000" n] by simp
  from Suc.prems have "wrap64 (800 + start) = 800 + start"
    by (intro wrap64_id) simp_all
  then have ns: "nextStart defaultGoldie start (start + 1000) = start + 800"
    using Suc.prems by (simp add: nextStart_def defaultGoldie_def Let_def)
  have "\<exists>cs. chunkLoop defaultGoldie ?t (chunks @ [?c]) (start + 800) start = Inr cs \<and> length cs = 10001"
    using Suc.prems len by (intro Suc.IH) simp_all
  then show ?case
    using lt Suc.prems(3) len
    by (simp add: chunkLoop.simps [of defaultGoldie ?t chunks start prevStart] ce sl ns
        TrimSpace_replicate_x Let_def)
qed

text \<open>
  Claim C1 (the cap of 10 000 chunks).  With the default configuration (chunk size 1000,
  overlap 200) a text of 8 001 000 bytes without white space is split into 10 001 chunks:
  the loop tests \<^verbatim>\<open>len(chunks) > 10000\<close> after appending, so it stops one chunk late.
\<close>

theorem chunkText_exceeds_cap:
  "\<exists>cs. chunkText defaultGoldie (replicate 8001000 (CHR ''x'')) = Inr cs \<and> length cs = 10001"
proof -
  have "\<exists>cs. chunkLoop defaultGoldie (replicate 8001000 (CHR ''x'')) [] 0 (- 1) = Inr cs \<and> length cs = 10001"
    by (rule chunkLoop_replicate_x [of 10000]) simp_all
  then show ?thesis
    by (simp add: chunkText_def defaultGoldie_def)
qed

function chunkLoop_traced ::
  "Goldie \<Rightarrow> string \<Rightarrow> string list \<Rightarrow> int \<Rightarrow> int \<Rightarrow> (panic + string list) \<times> int list" where
  \<comment> \<open>The loop of \<open>chunkText\<close> once more, now giving with its result the values that \<open>start\<close>
      has each time the loop condition \<^verbatim>\<open>start < len(text)\<close> holds, in order.\<close>
  "chunkLoop_traced r text chunks start prevStart =
     (if start < int (length text) then
        if start = prevStart then (Inr chunks, [start])
        else
          (case chunkEnd r text start of
             Inl p \<Rightarrow> (Inl p, [start])
           | Inr endpos \<Rightarrow>
               (case slice text start endpos of
                  Inl p \<Rightarrow> (Inl p, [start])
                | Inr w \<Rightarrow>
                    (let chunk = TrimSpace w;
                         chunks' = (if 0 < length chunk then chunks @ [chunk] else chunks);
                         newStart = nextStart r start endpos
                     in if 10000 < length chunks' then (Inr chunks', [start])
                        else apsnd ((#) start) (chunkLoop_traced r text chunks' newStart start))))
      else (Inr chunks, []))"
  by pat_completeness auto
termination
proof (relation "measure (\<lambda>(r, text, chunks, start, prevStart).
          2 * nat (int (length text) - start) + (if start = prevStart then 0 else 1))")
  show "wf (measure (\<lambda>(r, text, chunks, start, prevStart).
          2 * nat (int (length text) - start) + (if start = prevStart then 0 else 1)))"
    by simp
next
  fix r :: Goldie and t :: string and chunks :: "string list" and start prevStart endpos :: int
    and w chunk :: string and chunks' :: "string list" and newStart :: int
  assume lt: "start < int (length t)" and ne: "start \<noteq> prevStart"
    and sl: "slice t start endpos = Inr w"
    and ns: "newStart = nextStart r start endpos"
  from sl have "0 \<le> start" "start \<le> endpos" using slice_bounds by blast+
  then have "start \<le> newStart" using ns nextStart_ge by simp
  with lt ne
  show "((r, t, chunks', newStart, start), (r, t, chunks, start, prevStart))
        \<in> measure (\<lambda>(r, text, chunks, start, prevStart).
          2 * nat (int (length text) - start) + (if start = prevStart then 0 else 1))"
    by auto
qed

declare chunkLoop_traced.simps [simp del]

definition cursors :: "Goldie \<Rightarrow> string \<Rightarrow> int list" where
  \<comment> \<open>The values of \<open>start\<close> in the iterations of the loop that \<open>chunkText\<close> runs.\<close>
  "cursors r text =
     (if int (length text) \<le> chunkSize r then []
      else snd (chunkLoop_traced r text [] 0 (- 1)))"

lemma chunkLoop_traced_fst:
  "fst (chunkLoop_traced r t chunks start prevStart) = chunkLoop r t chunks start prevStart"
proof (induction r t chunks start prevStart rule: chunkLoop_traced.induct)
  case (1 r t chunks start prevStart)
  show ?case
  proof (cases "start < int (length t) \<and> start \<noteq> prevStart")
    case False
    then show ?thesis
      by (auto simp: chunkLoop.simps [of r t chunks start prevStart]
          chunkLoop_traced.simps [of r t chunks start prevStart])
  next
    case True
    then have lt: "start < int (length t)" and ne: "start \<noteq> prevStart" by simp_all
    show ?thesis
    proof (cases "chunkEnd r t start")
      case (Inl p)
      with lt ne show ?thesis
        by (simp add: chunkLoop.simps [of r t chunks start prevStart]
            chunkLoop_traced.simps [of r t chunks start prevStart])
    next
      case ce: (Inr e)
      show ?thesis
      proof (cases "slice t start e")
        case (Inl p)
        with lt ne ce show ?thesis
          by (simp add: chunkLoop.simps [of r t chunks start prevStart]
              chunkLoop_traced.simps [of r t chunks start prevStart])
      next
        case sl: (Inr w)
        define chunks' where "chunks' = (if 0 < length (TrimSpace w) then chunks @ [TrimSpace w] else chunks)"
        show ?thesis
        proof (cases "10000 < length chunks'")
          case True
          with lt ne ce sl show ?thesis
            by (simp add: chunkLoop.simps [of r t chunks start prevStart]
                chunkLoop_traced.simps [of r t chunks start prevStart] chunks'_def Let_def)
        next
          case False
          from "1.IH" [OF lt ne ce sl refl chunks'_def refl False]
          have "fst (chunkLoop_traced r t chunks' (nextStart r start e) start)
              = chunkLoop r t chunks' (nextStart r start e) start" .
          with lt ne ce sl False show ?thesis
            by (simp add: chunkLoop.simps [of r t chunks start prevStart]
                chunkLoop_traced.simps [of r t chunks start prevStart] chunks'_def Let_def)
        qed
      qed
    qed
  qed
qed

lemma chunkLoop_traced_shape:
  "snd (chunkLoop_traced r t chunks start prevStart) = []
   \<or> (start < int (length t) \<and> snd (chunkLoop_traced r t chunks start prevStart) = [start])
   \<or> (\<exists>e chunks'. start < int (length t) \<and> chunkEnd r t start = Inr e \<and> 0 \<le> start
          \<and> start \<le> e \<and> e \<le> int (length t)
          \<and> snd (chunkLoop_traced r t chunks start prevStart)
              = start # snd (chunkLoop_traced r t chunks' (nextStart r start e) start))"
proof (cases "start < int (length t) \<and> start \<noteq> prevStart")
  case False
  then show ?thesis
    by (auto simp: chunkLoop_traced.simps [of r t chunks start prevStart])
next
  case True
  then have lt: "start < int (length t)" and ne: "start \<noteq> prevStart" by simp_all
  show ?thesis
  proof (cases "chunkEnd r t start")
    case (Inl p)
    with lt ne show ?thesis
      by (simp add: chunkLoop_traced.simps [of r t chunks start prevStart])
  next
    case ce: (Inr e)
    show ?thesis
    proof (cases "slice t start e")
      case (Inl p)
      with lt ne ce show ?thesis
        by (simp add: chunkLoop_traced.simps [of r t chunks start prevStart])
    next
      case sl: (Inr w)
      from slice_bounds [OF sl] have b: "0 \<le> start" "start \<le> e" "e \<le> int (length t)" by simp_all
      define chunks' where "chunks' = (if 0 < length (TrimSpace w) then chunks @ [TrimSpace w] else chunks)"
      show ?thesis
      proof (cases "10000 < length chunks'")
        case True
        with lt ne ce sl show ?thesis
          by (simp add: chunkLoop_traced.simps [of r t chunks start prevStart] chunks'_def Let_def)
      next
        case False
        with lt ne ce sl
        have "snd (chunkLoop_traced r t chunks start prevStart)
              = start # snd (chunkLoop_traced r t chunks' (nextStart r start e) start)"
          by (simp add: chunkLoop_traced.simps [of r t chunks start prevStart] chunks'_def Let_def)
        with lt ce b show ?thesis by blast
      qed
    qed
  qed
qed

lemma nextStart_rule:
  assumes "0 \<le> start" "start \<le> e" "e < 2 ^ 62" "int64 (chunkOverlap r)"
  shows "nextStart r start e =
     (if start < e - chunkOverlap r \<and> e - chunkOverlap r < 2 ^ 63 then e - chunkOverlap r else e)"
proof (cases "e - chunkOverlap r < 2 ^ 63")
  case True
  with assms have "wrap64 (e - chunkOverlap r) = e - chunkOverlap r"
    by (intro wrap64_id) (simp_all add: int64_def)
  with assms True show ?thesis by (simp add: nextStart_def Let_def)
next
  case False
  with assms have w: "wrap64 (e - chunkOverlap r) = e - chunkOverlap r - 2 ^ 64"
    by (intro wrap64_over) (simp_all add: int64_def)
  from assms have "e - chunkOverlap r - 2 ^ 64 \<le> start" by (simp add: int64_def)
  with assms False show ?thesis unfolding nextStart_def Let_def w by simp
qed

lemma nextStart_progress:
  assumes ov: "chunkOverlap r < chunkSize r" and S: "int64 (chunkSize r)"
    and ovf: "int64 (chunkOverlap r)" and len: "int (length t) < 2 ^ 62"
    and c: "chunkSize r \<noteq> 0 \<or> - (2 ^ 62) \<le> chunkOverlap r"
    and s: "0 \<le> start" "start < int (length t)" and ce: "chunkEnd r t start = Inr e"
  shows "start < nextStart r start e"
proof -
  from len have len63: "int (length t) < 2 ^ 63" by simp
  from chunkEnd_progress [OF ce s(2) S len63]
  have pr: "start < e \<or> (e = start \<and> chunkSize r = 0 \<and> 0 \<le> start)" .
  from chunkEnd_le_length [OF ce] len have e62: "e < 2 ^ 62" by simp
  from pr have se: "start \<le> e" by auto
  note ns = nextStart_rule [OF s(1) se e62 ovf]
  from pr show ?thesis
  proof
    assume "start < e"
    then show ?thesis unfolding ns by simp
  next
    assume z: "e = start \<and> chunkSize r = 0 \<and> 0 \<le> start"
    with c ov have "- (2 ^ 62) \<le> chunkOverlap r" "chunkOverlap r < 0" by simp_all
    with z e62 show ?thesis unfolding ns by simp
  qed
qed

lemma chunkLoop_traced_cursors:
  "0 \<le> start \<Longrightarrow>
   (\<forall>c \<in> set (snd (chunkLoop_traced r t chunks start prevStart)). start \<le> c \<and> 0 \<le> c \<and> c < int (length t))
   \<and> (snd (chunkLoop_traced r t chunks start prevStart) \<noteq> [] \<longrightarrow>
        hd (snd (chunkLoop_traced r t chunks start prevStart)) = start)
   \<and> (\<forall>i. Suc i < length (snd (chunkLoop_traced r t chunks start prevStart)) \<longrightarrow>
        (\<exists>e. chunkEnd r t (snd (chunkLoop_traced r t chunks start prevStart) ! i) = Inr e
            \<and> snd (chunkLoop_traced r t chunks start prevStart) ! Suc i
                = nextStart r (snd (chunkLoop_traced r t chunks start prevStart) ! i) e))"
proof (induction "length (snd (chunkLoop_traced r t chunks start prevStart))"
    arbitrary: chunks start prevStart)
  case 0
  then show ?case by simp
next
  case (Suc n)
  let ?tr = "snd (chunkLoop_traced r t chunks start prevStart)"
  from chunkLoop_traced_shape [of r t chunks start prevStart] Suc(2) consider
    (one) "start < int (length t)" "?tr = [start]"
  | (more) e chunks' where "start < int (length t)" "chunkEnd r t start = Inr e" "0 \<le> start"
      "start \<le> e" "?tr = start # snd (chunkLoop_traced r t chunks' (nextStart r start e) start)"
    by auto
  then show ?case
  proof cases
    case one
    with Suc.prems show ?thesis by simp
  next
    case more
    let ?rest = "snd (chunkLoop_traced r t chunks' (nextStart r start e) start)"
    from more(5) Suc(2) have "n = length ?rest" by simp
    from Suc(1) [OF this nextStart_nonneg] have IH:
      "\<forall>c \<in> set ?rest. nextStart r start e \<le> c \<and> 0 \<le> c \<and> c < int (length t)"
      "?rest \<noteq> [] \<longrightarrow> hd ?rest = nextStart r start e"
      "\<forall>i. Suc i < length ?rest \<longrightarrow>
          (\<exists>e'. chunkEnd r t (?rest ! i) = Inr e' \<and> ?rest ! Suc i = nextStart r (?rest ! i) e')"
      by blast+
    from nextStart_ge [OF more(3,4)] have ge: "start \<le> nextStart r start e" .
    have a: "\<forall>c \<in> set ?tr. start \<le> c \<and> 0 \<le> c \<and> c < int (length t)"
      using more(1,3) IH(1) ge unfolding more(5) by auto
    have b: "hd ?tr = start" unfolding more(5) by simp
    have c: "\<exists>e'. chunkEnd r t (?tr ! i) = Inr e' \<and> ?tr ! Suc i = nextStart r (?tr ! i) e'"
      if "Suc i < length ?tr" for i
    proof (cases i)
      case 0
      with that more(5) have "?rest \<noteq> []" by auto
      with IH(2) have "?rest ! 0 = nextStart r start e" by (simp add: hd_conv_nth)
      with 0 more(2) show ?thesis unfolding more(5) by simp
    next
      case (Suc j)
      with that more(5) have "Suc j < length ?rest" by simp
      with IH(3) Suc show ?thesis unfolding more(5) by simp
    qed
    from a b c show ?thesis by blast
  qed
qed


lemma chunkLoop_traced_increasing:
  assumes ov: "chunkOverlap r < chunkSize r" and S: "int64 (chunkSize r)"
    and ovf: "int64 (chunkOverlap r)" and len: "int (length t) < 2 ^ 62"
    and c: "chunkSize r \<noteq> 0 \<or> - (2 ^ 62) \<le> chunkOverlap r"
  shows "0 \<le> start \<Longrightarrow> sorted_wrt (<) (snd (chunkLoop_traced r t chunks start prevStart))"
proof (induction "length (snd (chunkLoop_traced r t chunks start prevStart))"
    arbitrary: chunks start prevStart)
  case 0
  then show ?case by simp
next
  case (Suc n)
  let ?tr = "snd (chunkLoop_traced r t chunks start prevStart)"
  from chunkLoop_traced_shape [of r t chunks start prevStart] Suc(2) consider
    (one) "?tr = [start]"
  | (more) e chunks' where "start < int (length t)" "chunkEnd r t start = Inr e"
      "?tr = start # snd (chunkLoop_traced r t chunks' (nextStart r start e) start)"
    by auto
  then show ?case
  proof cases
    case one
    then show ?thesis by simp
  next
    case more
    let ?rest = "snd (chunkLoop_traced r t chunks' (nextStart r start e) start)"
    from more(3) Suc(2) have "n = length ?rest" by simp
    from Suc(1) [OF this nextStart_nonneg] have "sorted_wrt (<) ?rest" .
    moreover from nextStart_progress [OF ov S ovf len c Suc.prems more(1,2)]
    have "start < nextStart r start e" .
    with chunkLoop_traced_cursors [OF nextStart_nonneg [of r start e], where t = t
        and chunks = chunks' and prevStart = start]
    have "\<forall>c \<in> set ?rest. start < c" by fastforce
    ultimately show ?thesis unfolding more(3) by simp
  qed
qed

text \<open>
  Claim C6 (termination and forward progress of the chunker), as amended.  Let the chunk
  size \<open>S\<close> and the overlap \<open>O\<close> be 64-bit ints with \<open>O < S\<close>, and let the text have fewer than
  \<open>2^62\<close> bytes.  Then \<open>chunkText\<close> returns: a list of chunks when \<open>S\<close> is not negative or the
  text is empty, and the slice-bounds panic when \<open>S\<close> is negative and the text is not empty.
  The cursors of the loop, that is the values of \<open>start\<close> with which its iterations begin,
  lie within the text, and each comes from the one before it, whose chunk ends at \<open>e\<close>, by the
  rule of the code: the next cursor is \<open>e - O\<close> when that lies beyond the old cursor (and
  below \<open>2^63\<close>, so that the subtraction does not overflow), and \<open>e\<close> itself otherwise.  When
  \<open>S\<close> is not 0, or \<open>O\<close> is at least \<open>-2^62\<close>, every iteration moves the cursor strictly forward:
  the cursors are strictly increasing.  The rule is not \<open>start := max (e - O) e\<close>: see
  \<open>nextStart_is_not_max\<close>.
\<close>

theorem chunkText_forward_progress:
  assumes ov: "chunkOverlap r < chunkSize r"
    and S: "int64 (chunkSize r)"
    and ovf: "int64 (chunkOverlap r)"
    and len: "int (length t) < 2 ^ 62"
  shows "(\<forall>chunks start prevStart.
            fst (chunkLoop_traced r t chunks start prevStart) = chunkLoop r t chunks start prevStart)
       \<and> (0 \<le> chunkSize r \<longrightarrow> (\<exists>cs. chunkText r t = Inr cs))
       \<and> (chunkSize r < 0 \<and> t \<noteq> [] \<longrightarrow> chunkText r t = Inl SliceBounds)
       \<and> (chunkSize r < 0 \<and> t = [] \<longrightarrow> chunkText r t = Inr [])
       \<and> (\<forall>c \<in> set (cursors r t). 0 \<le> c \<and> c < int (length t))
       \<and> (\<forall>i. Suc i < length (cursors r t) \<longrightarrow>
             (\<exists>e. chunkEnd r t (cursors r t ! i) = Inr e
                 \<and> cursors r t ! Suc i = nextStart r (cursors r t ! i) e))
       \<and> (\<forall>start e. 0 \<le> start \<and> start < int (length t) \<and> chunkEnd r t start = Inr e \<longrightarrow>
             start \<le> e \<and> e \<le> int (length t)
             \<and> nextStart r start e =
                 (if start < e - chunkOverlap r \<and> e - chunkOverlap r < 2 ^ 63
                  then e - chunkOverlap r else e))
       \<and> (chunkSize r \<noteq> 0 \<or> - (2 ^ 62) \<le> chunkOverlap r \<longrightarrow> sorted_wrt (<) (cursors r t))"
proof (intro conjI allI impI ballI)
  fix chunks start prevStart
  show "fst (chunkLoop_traced r t chunks start prevStart) = chunkLoop r t chunks start prevStart"
    by (rule chunkLoop_traced_fst)
next
  assume "0 \<le> chunkSize r"
  then show "\<exists>cs. chunkText r t = Inr cs" using len by (rule chunkText_returns)
next
  assume "chunkSize r < 0 \<and> t \<noteq> []"
  then show "chunkText r t = Inl SliceBounds" using S chunkText_negative_size by blast
next
  assume "chunkSize r < 0 \<and> t = []"
  then show "chunkText r t = Inr []"
    by (simp add: chunkText_def chunkLoop.simps [of r "[]" "[]" 0 "- 1"])
next
  fix c assume c: "c \<in> set (cursors r t)"
  with chunkLoop_traced_cursors [where start = 0 and r = r and t = t and chunks = "[]"
      and prevStart = "- 1"]
  show "0 \<le> c" "c < int (length t)" by (auto simp: cursors_def split: if_splits)
next
  fix i assume "Suc i < length (cursors r t)"
  with chunkLoop_traced_cursors [where start = 0 and r = r and t = t and chunks = "[]"
      and prevStart = "- 1"]
  show "\<exists>e. chunkEnd r t (cursors r t ! i) = Inr e
           \<and> cursors r t ! Suc i = nextStart r (cursors r t ! i) e"
    by (auto simp: cursors_def split: if_splits)
next
  fix start e
  assume a: "0 \<le> start \<and> start < int (length t) \<and> chunkEnd r t start = Inr e"
  then have ce: "chunkEnd r t start = Inr e" and s0: "0 \<le> start" and lt: "start < int (length t)"
    by simp_all
  from len have len63: "int (length t) < 2 ^ 63" by simp
  from chunkEnd_progress [OF ce lt S len63] show se: "start \<le> e" by auto
  from chunkEnd_le_length [OF ce] show "e \<le> int (length t)" .
  with len have "e < 2 ^ 62" by simp
  from nextStart_rule [OF s0 se this ovf]
  show "nextStart r start e =
      (if start < e - chunkOverlap r \<and> e - chunkOverlap r < 2 ^ 63 then e - chunkOverlap r else e)" .
next
  assume "chunkSize r \<noteq> 0 \<or> - (2 ^ 62) \<le> chunkOverlap r"
  from chunkLoop_traced_increasing [OF ov S ovf len this, of 0 "[]" "- 1"]
  show "sorted_wrt (<) (cursors r t)" by (simp add: cursors_def)
qed

definition fox :: string where
  "fox = ''the quick brown fox jumps over the lazy dog''"

theorem chunkText_forward_progress_witness:
  "chunkOverlap \<lparr>chunkSize = 10, chunkOverlap = 3\<rparr> < chunkSize \<lparr>chunkSize = 10, chunkOverlap = 3\<rparr>
   \<and> int64 (chunkSize \<lparr>chunkSize = 10, chunkOverlap = 3\<rparr>)
   \<and> int64 (chunkOverlap \<lparr>chunkSize = 10, chunkOverlap = 3\<rparr>)
   \<and> int (length fox) < 2 ^ 62
   \<and> chunkText \<lparr>chunkSize = 10, chunkOverlap = 3\<rparr> fox
       = Inr [''the quick'', ''ick brown'', ''own fox'', ''fox jumps'', ''mps over'', ''ver the'',
              ''the lazy'', ''azy dog'', ''dog'']
   \<and> cursors \<lparr>chunkSize = 10, chunkOverlap = 3\<rparr> fox = [0, 6, 12, 16, 22, 27, 31, 36, 40]
   \<and> chunkEnd \<lparr>chunkSize = 10, chunkOverlap = 3\<rparr> fox 0 = Inr 9
   \<and> nextStart \<lparr>chunkSize = 10, chunkOverlap = 3\<rparr> 0 9 = 6
   \<and> sorted_wrt (<) (cursors \<lparr>chunkSize = 10, chunkOverlap = 3\<rparr> fox)"
proof -
  let ?r = "\<lparr>chunkSize = 10, chunkOverlap = 3\<rparr>"
  have h: "chunkOverlap ?r < chunkSize ?r" "int64 (chunkSize ?r)" "int64 (chunkOverlap ?r)"
    "int (length fox) < 2 ^ 62"
    by (simp_all add: int64_def fox_def)
  have ev: "chunkText ?r fox
       = Inr [''the quick'', ''ick brown'', ''own fox'', ''fox jumps'', ''mps over'', ''ver the'',
              ''the lazy'', ''azy dog'', ''dog'']"
    "cursors ?r fox = [0, 6, 12, 16, 22, 27, 31, 36, 40]"
    "chunkEnd ?r fox 0 = Inr 9" "nextStart ?r 0 9 = 6"
    by code_simp+
  from chunkText_forward_progress [OF h] have "sorted_wrt (<) (cursors ?r fox)" by simp
  with h ev show ?thesis by blast
qed

text \<open>
  With a chunk size of 0 and an overlap below \<open>-2^62\<close> the subtraction can overflow; then the
  cursor stays where it is and the guard ends the loop.
\<close>

lemma cursor_stays_on_overflow:
  "cursors \<lparr>chunkSize = 0, chunkOverlap = - (2 ^ 63)\<rparr> ''abc'' = [0, 0]
   \<and> chunkText \<lparr>chunkSize = 0, chunkOverlap = - (2 ^ 63)\<rparr> ''abc'' = Inr []"
  by code_simp

text \<open>
  With the default configuration the second cursor is 800, where \<open>max (e - O) e\<close> is 1000.
\<close>

theorem nextStart_is_not_max:
  "chunkEnd defaultGoldie (replicate 2500 (CHR ''x'')) 0 = Inr 1000
   \<and> nextStart defaultGoldie 0 1000 = 800
   \<and> nextStart defaultGoldie 0 1000 \<noteq> max (1000 - chunkOverlap defaultGoldie) 1000"
proof -
  have "chunkEnd defaultGoldie (replicate 2500 (CHR ''x'')) 0 = Inr (0 + chunkSize defaultGoldie)"
    by (rule chunkEnd_replicate_x) (simp_all add: defaultGoldie_def)
  moreover have "nextStart defaultGoldie 0 1000 = 800"
    by (simp add: nextStart_def defaultGoldie_def wrap64_def Let_def)
  ultimately show ?thesis by (simp add: defaultGoldie_def)
qed

section \<open>The store (internal/store/store.go)\<close>

text \<open>
  The database is modelled by its three tables.  \<open>documents\<close> and \<open>documents_vec\<close> have
  the primary key \<open>id\<close>, so each is a map from the id to the rest of the row; \<open>jobs\<close> is
  the list of its rows in insertion order.  An embedding is a list of 32-bit floats, each
  given by its IEEE-754 bit pattern.  The metadata column holds the JSON text of a Go
  \<^verbatim>\<open>map[string]string\<close>; it is modelled by the map that text decodes to, \<open>None\<close> being Go's
  nil map (stored as the empty string).  Keys and values are taken to be valid UTF-8, which
  \<^verbatim>\<open>json.Marshal\<close> writes out unchanged.

  Every call of the database driver may fail.  Which calls fail, and what
  \<^verbatim>\<open>CURRENT_TIMESTAMP\<close> is, is given by the environment as a function of the number of
  calls made so far (\<open>stmts\<close>), so that any pattern of failures can be stated.

  \<open>documents_vec\<close> is a virtual table of the sqlite-vec engine, a dependency that is not part
  of the repository's sources.  \<open>AddDocument\<close> writes to it with \<^verbatim>\<open>INSERT OR REPLACE\<close>.
  Whether the engine replaces the vector of an id that has one, as the statement asks, or
  refuses the row with a constraint error, is the environment's \<open>vec0_replaces\<close>; the
  theorems hold for both.
\<close>

type_synonym float32 = "32 word"
type_synonym error = string

record doc_row =
  content :: string
  metadata :: "(string \<rightharpoonup> string) option"
  created_at :: nat

record Document =
  ID :: string
  Content :: string
  Metadata :: "(string \<rightharpoonup> string) option"
  CreatedAt :: nat

text \<open>
  A row of the jobs table.  \<open>Result\<close>, \<open>Error\<close> and \<open>ParentID\<close> are the nullable columns
  (Go's \<^verbatim>\<open>Job\<close> struct reads NULL as the empty string).
\<close>

record Job =
  JobID :: string
  Type :: string
  Status :: string
  Params :: string
  Result :: "string option"
  Error :: "string option"
  Progress :: int
  Total :: int
  ParentID :: "string option"
  JobCreatedAt :: nat
  UpdatedAt :: nat

definition JobStatusQueued :: string where "JobStatusQueued = ''queued''"
definition JobStatusProcessing :: string where "JobStatusProcessing = ''processing''"
definition JobStatusCompleted :: string where "JobStatusCompleted = ''completed''"
definition JobStatusFailed :: string where "JobStatusFailed = ''failed''"
definition JobTypeIndexFile :: string where "JobTypeIndexFile = ''index_file''"
definition JobTypeIndexDir :: string where "JobTypeIndexDir = ''index_directory''"

record store =
  documents :: "string \<rightharpoonup> doc_row"
  documents_vec :: "string \<rightharpoonup> float32 list"
  jobs :: "Job list"
  dimensions :: int
  stmts :: nat

record env =
  fails :: "nat \<Rightarrow> bool"
  clock :: "nat \<Rightarrow> nat"
  uuid :: "nat \<Rightarrow> string"
  Embed :: "string \<Rightarrow> error + float32 list"
  ReadFile :: "string \<Rightarrow> error + string"
  sha256hex :: "string \<Rightarrow> string"
  ScanDirectory :: "string \<Rightarrow> string \<Rightarrow> bool \<Rightarrow> error + string list"
  marshalFileParams :: "string \<Rightarrow> error + string"
  unmarshalFileParams :: "string \<Rightarrow> error + string"
  marshalDirParams :: "string \<Rightarrow> string \<Rightarrow> bool \<Rightarrow> error + string"
  unmarshalDirParams :: "string \<Rightarrow> error + string \<times> string \<times> bool"
  marshalFileResult :: "string \<Rightarrow> int \<Rightarrow> string \<Rightarrow> error + string"
  marshalDirResult :: "int \<Rightarrow> string list \<Rightarrow> string \<Rightarrow> string \<Rightarrow> bool \<Rightarrow> error + string"
  vec0_replaces :: bool

definition New_store :: "int \<Rightarrow> store" where
  \<comment> \<open>The store right after \<^verbatim>\<open>initSchema\<close> on a fresh database file.\<close>
  "New_store d = \<lparr>documents = Map.empty, documents_vec = Map.empty, jobs = [], dimensions = d, stmts = 0\<rparr>"

definition tick :: "store \<Rightarrow> store" where
  "tick s = s\<lparr>stmts := stmts s + 1\<rparr>"

definition rollback :: "store \<Rightarrow> store \<Rightarrow> store" where
  \<comment> \<open>\<^verbatim>\<open>tx.Rollback()\<close>: the tables as they were when the transaction \<open>tx\<close> began in \<open>s\<close>.\<close>
  "rollback s tx = tx\<lparr>documents := documents s, documents_vec := documents_vec s, jobs := jobs s\<rparr>"

definition unsupportedFloat :: "float32 \<Rightarrow> bool" where
  \<comment> \<open>NaN and the infinities (exponent bits all set): \<^verbatim>\<open>json.Marshal\<close> rejects them.\<close>
  "unsupportedFloat f = (drop_bit 23 f AND 0xFF = 0xFF)"

definition vec0_accepts :: "store \<Rightarrow> float32 list \<Rightarrow> bool" where
  \<comment> \<open>Modelled from the spec: the check that the sqlite-vec engine (a dependency, not part of
      the repository's sources) makes on a row written to the table that \<^verbatim>\<open>initSchema\<close>
      declares with the column \<^verbatim>\<open>embedding FLOAT[D]\<close>: the vector has D elements.\<close>
  "vec0_accepts s embedding = (int (length embedding) = dimensions s)"

definition AddDocument ::
  "env \<Rightarrow> store \<Rightarrow> string \<Rightarrow> string \<Rightarrow> (string \<rightharpoonup> string) option \<Rightarrow> float32 list \<Rightarrow> store \<times> (error + unit)" where
  "AddDocument e s id' c md embedding =
     (if fails e (stmts s) then (tick s, Inl ''beginning transaction'')
      else
        let tx = tick s in
        if fails e (stmts tx) then (rollback s (tick tx), Inl ''inserting document'')
        else
          let tx = tick (tx\<lparr>documents := (documents tx)(id' \<mapsto>
                     \<lparr>content = c, metadata = md, created_at = clock e (stmts tx)\<rparr>)\<rparr>) in
          if \<exists>x \<in> set embedding. unsupportedFloat x then (rollback s tx, Inl ''marshaling embedding'')
          else if fails e (stmts tx) \<or> \<not> vec0_accepts tx embedding
                  \<or> (documents_vec tx id' \<noteq> None \<and> \<not> vec0_replaces e)
          then (rollback s (tick tx), Inl ''inserting vector'')
          else
            let tx = tick (tx\<lparr>documents_vec := (documents_vec tx)(id' \<mapsto> embedding)\<rparr>) in
            if fails e (stmts tx) then (rollback s (tick tx), Inl ''committing'')
            else (tick tx, Inr ()))"

definition GetDocument :: "env \<Rightarrow> store \<Rightarrow> string \<Rightarrow> store \<times> (error + Document option)" where
  "GetDocument e s id' =
     (if fails e (stmts s) then (tick s, Inl ''querying document'')
      else (tick s,
            Inr (case documents s id' of
                   None \<Rightarrow> None
                 | Some row \<Rightarrow> Some \<lparr>ID = id', Content = content row, Metadata = metadata row,
                                      CreatedAt = created_at row\<rparr>)))"

definition DeleteDocument :: "env \<Rightarrow> store \<Rightarrow> string \<Rightarrow> store \<times> (error + unit)" where
  "DeleteDocument e s id' =
     (if fails e (stmts s) then (tick s, Inl ''beginning transaction'')
      else
        let tx = tick s in
        if fails e (stmts tx) then (rollback s (tick tx), Inl ''deleting document'')
        else
          let tx = tick (tx\<lparr>documents := (documents tx)(id' := None)\<rparr>) in
          if fails e (stmts tx) then (rollback s (tick tx), Inl ''deleting vector'')
          else
            let tx = tick (tx\<lparr>documents_vec := (documents_vec tx)(id' := None)\<rparr>) in
            if fails e (stmts tx) then (rollback s (tick tx), Inl ''committing'')
            else (tick tx, Inr ()))"


definition CreateJob :: "env \<Rightarrow> store \<Rightarrow> string \<Rightarrow> string \<Rightarrow> string \<Rightarrow> store \<times> (error + unit)" where
  \<comment> \<open>The INSERT fails when the driver does or when the primary key is taken.\<close>
  "CreateJob e s id' jobType params =
     (if fails e (stmts s) \<or> (\<exists>j \<in> set (jobs s). JobID j = id') then (tick s, Inl ''creating job'')
      else (tick (s\<lparr>jobs := jobs s @
              [\<lparr>JobID = id', Type = jobType, Status = ''queued'', Params = params, Result = None,
                Error = None, Progress = 0, Total = 0, ParentID = None,
                JobCreatedAt = clock e (stmts s), UpdatedAt = clock e (stmts s)\<rparr>]\<rparr>), Inr ()))"

definition CreateJobWithParent ::
  "env \<Rightarrow> store \<Rightarrow> string \<Rightarrow> string \<Rightarrow> string \<Rightarrow> string \<Rightarrow> store \<times> (error + unit)" where
  "CreateJobWithParent e s id' jobType params parentID =
     (if fails e (stmts s) \<or> (\<exists>j \<in> set (jobs s). JobID j = id') then (tick s, Inl ''creating job'')
      else (tick (s\<lparr>jobs := jobs s @
              [\<lparr>JobID = id', Type = jobType, Status = ''queued'', Params = params, Result = None,
                Error = None, Progress = 0, Total = 0, ParentID = Some parentID,
                JobCreatedAt = clock e (stmts s), UpdatedAt = clock e (stmts s)\<rparr>]\<rparr>), Inr ()))"

definition GetJob :: "env \<Rightarrow> store \<Rightarrow> string \<Rightarrow> store \<times> (error + Job option)" where
  "GetJob e s id' =
     (if fails e (stmts s) then (tick s, Inl ''querying job'')
      else (tick s, Inr (find (\<lambda>j. JobID j = id') (jobs s))))"

definition update_where_id :: "env \<Rightarrow> store \<Rightarrow> string \<Rightarrow> (Job \<Rightarrow> Job) \<Rightarrow> store \<times> (error + unit)" where
  \<comment> \<open>\<^verbatim>\<open>UPDATE jobs SET ..., updated_at = CURRENT_TIMESTAMP WHERE id = ?\<close> outside a
      transaction.\<close>
  "update_where_id e s id' f =
     (if fails e (stmts s) then (tick s, Inl ''update jobs'')
      else (tick (s\<lparr>jobs := map (\<lambda>j. if JobID j = id' then (f j)\<lparr>UpdatedAt := clock e (stmts s)\<rparr> else j)
                                (jobs s)\<rparr>), Inr ()))"

definition UpdateJobStatus :: "env \<Rightarrow> store \<Rightarrow> string \<Rightarrow> string \<Rightarrow> store \<times> (error + unit)" where
  "UpdateJobStatus e s id' st = update_where_id e s id' (\<lambda>j. j\<lparr>Status := st\<rparr>)"

definition UpdateJobProgress :: "env \<Rightarrow> store \<Rightarrow> string \<Rightarrow> int \<Rightarrow> int \<Rightarrow> store \<times> (error + unit)" where
  "UpdateJobProgress e s id' p n = update_where_id e s id' (\<lambda>j. j\<lparr>Progress := p, Total := n\<rparr>)"

definition UpdateJobResult :: "env \<Rightarrow> store \<Rightarrow> string \<Rightarrow> string \<Rightarrow> store \<times> (error + unit)" where
  "UpdateJobResult e s id' res =
     update_where_id e s id' (\<lambda>j. j\<lparr>Result := Some res, Status := JobStatusCompleted\<rparr>)"

definition UpdateJobError :: "env \<Rightarrow> store \<Rightarrow> string \<Rightarrow> string \<Rightarrow> store \<times> (error + unit)" where
  "UpdateJobError e s id' errMsg =
     update_where_id e s id' (\<lambda>j. j\<lparr>Error := Some errMsg, Status := JobStatusFailed\<rparr>)"

fun oldest :: "Job list \<Rightarrow> Job option" where
  \<comment> \<open>\<^verbatim>\<open>ORDER BY created_at ASC LIMIT 1\<close>: a row with the least \<open>created_at\<close> (the first
      such row of the table when several share it).\<close>
  "oldest [] = None"
| "oldest (j # js) =
     (case oldest js of
        None \<Rightarrow> Some j
      | Some k \<Rightarrow> if JobCreatedAt j \<le> JobCreatedAt k then Some j else Some k)"

definition GetNextPendingJob :: "env \<Rightarrow> store \<Rightarrow> store \<times> (error + Job option)" where
  "GetNextPendingJob e s =
     (if fails e (stmts s) then (tick s, Inl ''beginning transaction'')
      else
        let tx = tick s in
        if fails e (stmts tx) then (rollback s (tick tx), Inl ''querying pending job'')
        else
          (case oldest (filter (\<lambda>j. Status j = JobStatusQueued) (jobs tx)) of
             None \<Rightarrow> (rollback s (tick tx), Inr None)
           | Some job \<Rightarrow>
               let tx = tick tx in
               if fails e (stmts tx) then (rollback s (tick tx), Inl ''claiming job'')
               else
                 let tx = tick (tx\<lparr>jobs := map (\<lambda>j. if JobID j = JobID job
                                     then j\<lparr>Status := JobStatusProcessing, UpdatedAt := clock e (stmts tx)\<rparr>
                                     else j) (jobs tx)\<rparr>) in
                 if fails e (stmts tx) then (rollback s (tick tx), Inl ''committing transaction'')
                 else (tick tx, Inr (Some (job\<lparr>Status := JobStatusProcessing\<rparr>)))))"

definition DeleteJobs :: "env \<Rightarrow> store \<Rightarrow> string \<Rightarrow> store \<times> (error + int)" where
  "DeleteJobs e s st =
     (if fails e (stmts s) then (tick s, Inl ''deleting jobs'')
      else if st = ''all'' then (tick (s\<lparr>jobs := []\<rparr>), Inr (int (length (jobs s))))
      else (tick (s\<lparr>jobs := filter (\<lambda>j. Status j \<noteq> st) (jobs s)\<rparr>),
            Inr (int (length (filter (\<lambda>j. Status j = st) (jobs s))))))"

lemma rollback_tables [simp]:
  "documents (rollback s tx) = documents s"
  "documents_vec (rollback s tx) = documents_vec s"
  "jobs (rollback s tx) = jobs s"
  "dimensions (rollback s tx) = dimensions tx"
  by (simp_all add: rollback_def)

lemma tick_tables [simp]:
  "documents (tick s) = documents s"
  "documents_vec (tick s) = documents_vec s"
  "jobs (tick s) = jobs s"
  "dimensions (tick s) = dimensions s"
  "stmts (tick s) = Suc (stmts s)"
  by (simp_all add: tick_def)

text \<open>
  Claim C7 (AddDocument fails on a wrong dimension and is atomic).  A vector whose length
  is not the dimension of the store makes \<open>AddDocument\<close> fail, and whenever it fails, for
  whatever reason, both tables are as they were before the call.
\<close>

theorem AddDocument_fails_atomically:
  "(int (length embedding) \<noteq> dimensions s \<longrightarrow> (\<exists>msg. snd (AddDocument e s id' c md embedding) = Inl msg))
   \<and> (\<forall>msg. snd (AddDocument e s id' c md embedding) = Inl msg \<longrightarrow>
          documents (fst (AddDocument e s id' c md embedding)) = documents s
        \<and> documents_vec (fst (AddDocument e s id' c md embedding)) = documents_vec s
        \<and> jobs (fst (AddDocument e s id' c md embedding)) = jobs s)"
  by (simp add: AddDocument_def Let_def vec0_accepts_def)


lemma oldest_None: "oldest js = None \<longleftrightarrow> js = []"
  by (cases js) (auto split: option.splits)

lemma oldest_Some:
  "oldest js = Some j \<Longrightarrow> j \<in> set js \<and> (\<forall>k \<in> set js. JobCreatedAt j \<le> JobCreatedAt k)"
proof (induction js arbitrary: j)
  case Nil
  then show ?case by simp
next
  case (Cons a js)
  show ?case
  proof (cases "oldest js")
    case None
    with Cons.prems show ?thesis by (simp add: oldest_None)
  next
    case (Some k)
    with Cons.IH have "k \<in> set js" "\<forall>x \<in> set js. JobCreatedAt k \<le> JobCreatedAt x" by simp_all
    with Cons.prems Some show ?thesis by (fastforce split: if_splits)
  qed
qed

lemma status_names_differ:
  "JobStatusProcessing \<noteq> JobStatusQueued" "JobStatusCompleted \<noteq> JobStatusQueued"
  "JobStatusFailed \<noteq> JobStatusQueued" "JobStatusCompleted \<noteq> JobStatusProcessing"
  "JobStatusFailed \<noteq> JobStatusProcessing" "JobStatusCompleted \<noteq> JobStatusFailed"
  by (simp_all add: JobStatusQueued_def JobStatusProcessing_def JobStatusCompleted_def JobStatusFailed_def)

definition claimed :: "env \<Rightarrow> store \<Rightarrow> Job \<Rightarrow> Job list" where
  \<comment> \<open>The jobs table of \<open>s\<close> after the row \<open>row\<close> has been claimed.\<close>
  "claimed e s row =
     map (\<lambda>j. if JobID j = JobID row
              then j\<lparr>Status := JobStatusProcessing, UpdatedAt := clock e (stmts s + 2)\<rparr> else j) (jobs s)"

lemma GetNextPendingJob_cases:
  "(case GetNextPendingJob e s of
      (s', Inl err) \<Rightarrow> jobs s' = jobs s
    | (s', Inr None) \<Rightarrow> jobs s' = jobs s \<and> (\<forall>j \<in> set (jobs s). Status j \<noteq> JobStatusQueued)
    | (s', Inr (Some job)) \<Rightarrow>
        (\<exists>row \<in> set (jobs s). Status row = JobStatusQueued \<and> job = row\<lparr>Status := JobStatusProcessing\<rparr>
            \<and> (\<forall>k \<in> set (jobs s). Status k = JobStatusQueued \<longrightarrow> JobCreatedAt row \<le> JobCreatedAt k)
            \<and> jobs s' = claimed e s row))
   \<and> documents (fst (GetNextPendingJob e s)) = documents s
   \<and> documents_vec (fst (GetNextPendingJob e s)) = documents_vec s"
proof (cases "oldest (filter (\<lambda>j. Status j = JobStatusQueued) (jobs s))")
  case None
  then have "filter (\<lambda>j. Status j = JobStatusQueued) (jobs s) = []" by (simp add: oldest_None)
  then have "\<forall>j \<in> set (jobs s). Status j \<noteq> JobStatusQueued" by (simp add: filter_empty_conv)
  with None show ?thesis by (simp add: GetNextPendingJob_def Let_def)
next
  case (Some row)
  from oldest_Some [OF Some]
  have "row \<in> set (jobs s)" "Status row = JobStatusQueued"
    "\<forall>k \<in> set (jobs s). Status k = JobStatusQueued \<longrightarrow> JobCreatedAt row \<le> JobCreatedAt k"
    by auto
  with Some show ?thesis
    by (auto simp: GetNextPendingJob_def Let_def claimed_def tick_def)
qed


lemma GetNextPendingJob_no_fault:
  assumes "\<not> fails e (stmts s)" "\<not> fails e (stmts s + 1)"
    and "(\<exists>j \<in> set (jobs s). Status j = JobStatusQueued) \<longrightarrow> \<not> fails e (stmts s + 2) \<and> \<not> fails e (stmts s + 3)"
  shows "\<exists>r. snd (GetNextPendingJob e s) = Inr r"
proof (cases "oldest (filter (\<lambda>j. Status j = JobStatusQueued) (jobs s))")
  case None
  with assms show ?thesis by (simp add: GetNextPendingJob_def Let_def)
next
  case (Some row)
  from oldest_Some [OF Some] have "\<exists>j \<in> set (jobs s). Status j = JobStatusQueued" by auto
  with assms Some show ?thesis by (simp add: GetNextPendingJob_def Let_def eval_nat_numeral)
qed

lemma claimed_not_queued:
  "k \<in> set (claimed e s row) \<Longrightarrow> JobID k = JobID row \<Longrightarrow> Status k \<noteq> JobStatusQueued"
  by (auto simp: claimed_def status_names_differ)

lemma GetNextPendingJob_some_queued:
  assumes nf: "\<not> fails e (stmts s)" "\<not> fails e (stmts s + 1)" "\<not> fails e (stmts s + 2)"
      "\<not> fails e (stmts s + 3)"
    and q: "\<exists>j \<in> set (jobs s). Status j = JobStatusQueued"
  shows "\<exists>row \<in> set (jobs s). Status row = JobStatusQueued
          \<and> (\<forall>k \<in> set (jobs s). Status k = JobStatusQueued \<longrightarrow> JobCreatedAt row \<le> JobCreatedAt k)
          \<and> snd (GetNextPendingJob e s) = Inr (Some (row\<lparr>Status := JobStatusProcessing\<rparr>))
          \<and> jobs (fst (GetNextPendingJob e s)) = claimed e s row"
proof -
  from nf obtain r where r: "snd (GetNextPendingJob e s) = Inr r"
    using GetNextPendingJob_no_fault [where e = e and s = s] by auto
  then obtain s' where s': "GetNextPendingJob e s = (s', Inr r)"
    by (cases "GetNextPendingJob e s") auto
  show ?thesis
  proof (cases r)
    case None
    with GetNextPendingJob_cases [where e = e and s = s] s' q show ?thesis by auto
  next
    case (Some job)
    with GetNextPendingJob_cases [where e = e and s = s] s' show ?thesis by auto
  qed
qed

lemma GetNextPendingJob_none_queued:
  assumes nf: "\<not> fails e (stmts s)" "\<not> fails e (stmts s + 1)"
    and q: "\<not> (\<exists>j \<in> set (jobs s). Status j = JobStatusQueued)"
  shows "snd (GetNextPendingJob e s) = Inr None \<and> jobs (fst (GetNextPendingJob e s)) = jobs s"
proof -
  from nf q obtain r where r: "snd (GetNextPendingJob e s) = Inr r"
    using GetNextPendingJob_no_fault [where e = e and s = s] by auto
  then obtain s' where s': "GetNextPendingJob e s = (s', Inr r)"
    by (cases "GetNextPendingJob e s") auto
  show ?thesis
  proof (cases r)
    case None
    with GetNextPendingJob_cases [where e = e and s = s] s' show ?thesis by auto
  next
    case (Some job)
    with GetNextPendingJob_cases [where e = e and s = s] s' q show ?thesis by auto
  qed
qed

lemma GetNextPendingJob_error_unchanged:
  assumes "snd (GetNextPendingJob e s) = Inl err"
  shows "jobs (fst (GetNextPendingJob e s)) = jobs s"
proof -
  from assms obtain s' where "GetNextPendingJob e s = (s', Inl err)"
    by (cases "GetNextPendingJob e s") auto
  with GetNextPendingJob_cases [where e = e and s = s] show ?thesis by auto
qed

lemma GetNextPendingJob_twice:
  assumes a1: "snd (GetNextPendingJob e s) = Inr (Some j1)"
    and a2: "snd (GetNextPendingJob e (fst (GetNextPendingJob e s))) = Inr (Some j2)"
  shows "JobID j1 \<noteq> JobID j2"
proof -
  obtain s1 where s1: "GetNextPendingJob e s = (s1, Inr (Some j1))"
    using a1 by (cases "GetNextPendingJob e s") auto
  obtain s2 where s2: "GetNextPendingJob e s1 = (s2, Inr (Some j2))"
    using a2 s1 by (cases "GetNextPendingJob e s1") auto
  from GetNextPendingJob_cases [where e = e and s = s] s1 obtain row where
    row: "j1 = row\<lparr>Status := JobStatusProcessing\<rparr>" "jobs s1 = claimed e s row" by auto
  from GetNextPendingJob_cases [where e = e and s = s1] s2 obtain row2 where
    row2: "row2 \<in> set (jobs s1)" "Status row2 = JobStatusQueued" "j2 = row2\<lparr>Status := JobStatusProcessing\<rparr>"
    by auto
  from row2(1,2) row(2) claimed_not_queued [where k = row2 and e = e and s = s and row = row]
  have "JobID row2 \<noteq> JobID row" by auto
  with row(1) row2(3) show "JobID j1 \<noteq> JobID j2" by simp
qed

subsection \<open>An environment and states for concrete runs\<close>

definition calm :: env where
  \<comment> \<open>No database call fails, the clock shows the number of calls made, every text embeds
      to the same three-dimensional vector and one small file exists.  (\<open>sha256hex\<close> is a
      stand-in here: the theorems hold for any function.)\<close>
  "calm = \<lparr>fails = (\<lambda>n. False), clock = (\<lambda>n. n), uuid = (\<lambda>n. replicate (Suc n) (CHR ''u'')),
            Embed = (\<lambda>t. if t = [] then Inl ''empty text'' else Inr [0, 0, 0]),
            ReadFile = (\<lambda>p. if p = ''/tmp/a.txt'' then Inr ''Go is a programming language''
                              else Inl ''no such file''),
            sha256hex = (\<lambda>c. ''sha256 of '' @ c),
            ScanDirectory = (\<lambda>dir pattern recursive. Inr [''/tmp/a.txt'']),
            marshalFileParams = (\<lambda>path. Inr path),
            unmarshalFileParams = (\<lambda>params. Inr params),
            marshalDirParams = (\<lambda>dir pattern recursive. Inr dir),
            unmarshalDirParams = (\<lambda>params. Inr (params, ''*'', False)),
            marshalFileResult = (\<lambda>id' chunk_count path. Inr id'),
            marshalDirResult = (\<lambda>file_count child_job_ids dir pattern recursive. Inr dir),
            vec0_replaces = False\<rparr>"

definition two_jobs :: store where
  "two_jobs = fst (CreateJob calm (fst (CreateJob calm (New_store 3) ''a'' JobTypeIndexFile ''{}''))
                     ''b'' JobTypeIndexFile ''{}'')"

theorem AddDocument_fails_atomically_witness:
  "int (length [0, 0 :: float32]) \<noteq> dimensions (New_store 3)
   \<and> snd (AddDocument calm (New_store 3) ''a'' ''some text'' None [0, 0]) = Inl ''inserting vector''
   \<and> documents (fst (AddDocument calm (New_store 3) ''a'' ''some text'' None [0, 0])) = documents (New_store 3)
   \<and> documents_vec (fst (AddDocument calm (New_store 3) ''a'' ''some text'' None [0, 0])) = documents_vec (New_store 3)
   \<and> jobs (fst (AddDocument calm (New_store 3) ''a'' ''some text'' None [0, 0])) = jobs (New_store 3)"
  using AddDocument_fails_atomically [where e = calm and s = "New_store 3" and id' = "''a''"
      and c = "''some text''" and md = None and embedding = "[0, 0]"]
  by (simp add: AddDocument_def calm_def New_store_def tick_def rollback_def Let_def
      vec0_accepts_def unsupportedFloat_def)

subsection \<open>Reachable store states\<close>

datatype store_op =
    OpAddDocument string string "(string \<rightharpoonup> string) option" "float32 list"
  | OpDeleteDocument string
  | OpGetDocument string
  | OpCreateJob string string string
  | OpCreateJobWithParent string string string string
  | OpGetJob string
  | OpUpdateJobStatus string string
  | OpUpdateJobProgress string int int
  | OpUpdateJobResult string string
  | OpUpdateJobError string string
  | OpGetNextPendingJob
  | OpDeleteJobs string

fun apply_op :: "env \<Rightarrow> store \<Rightarrow> store_op \<Rightarrow> store" where
  "apply_op e s (OpAddDocument id' c md embedding) = fst (AddDocument e s id' c md embedding)"
| "apply_op e s (OpDeleteDocument id') = fst (DeleteDocument e s id')"
| "apply_op e s (OpGetDocument id') = fst (GetDocument e s id')"
| "apply_op e s (OpCreateJob id' jobType params) = fst (CreateJob e s id' jobType params)"
| "apply_op e s (OpCreateJobWithParent id' jobType params parentID) =
     fst (CreateJobWithParent e s id' jobType params parentID)"
| "apply_op e s (OpGetJob id') = fst (GetJob e s id')"
| "apply_op e s (OpUpdateJobStatus id' st) = fst (UpdateJobStatus e s id' st)"
| "apply_op e s (OpUpdateJobProgress id' p n) = fst (UpdateJobProgress e s id' p n)"
| "apply_op e s (OpUpdateJobResult id' res) = fst (UpdateJobResult e s id' res)"
| "apply_op e s (OpUpdateJobError id' errMsg) = fst (UpdateJobError e s id' errMsg)"
| "apply_op e s OpGetNextPendingJob = fst (GetNextPendingJob e s)"
| "apply_op e s (OpDeleteJobs st) = fst (DeleteJobs e s st)"

definition run_ops :: "env \<Rightarrow> int \<Rightarrow> store_op list \<Rightarrow> store" where
  \<comment> \<open>The store reached from a fresh database of dimension \<open>d\<close> by a sequence of calls.\<close>
  "run_ops e d ops = foldl (apply_op e) (New_store d) ops"

definition paired :: "store \<Rightarrow> bool" where
  "paired s = (dom (documents s) = dom (documents_vec s)
               \<and> (\<forall>i v. documents_vec s i = Some v \<longrightarrow> int (length v) = dimensions s))"

lemma AddDocument_outcome:
  "(case snd (AddDocument e s id' c md embedding) of
      Inl msg \<Rightarrow> documents (fst (AddDocument e s id' c md embedding)) = documents s
               \<and> documents_vec (fst (AddDocument e s id' c md embedding)) = documents_vec s
    | Inr u \<Rightarrow> documents (fst (AddDocument e s id' c md embedding)) =
                 (documents s)(id' \<mapsto> \<lparr>content = c, metadata = md, created_at = clock e (stmts s + 1)\<rparr>)
             \<and> documents_vec (fst (AddDocument e s id' c md embedding)) = (documents_vec s)(id' \<mapsto> embedding)
             \<and> int (length embedding) = dimensions s)
   \<and> jobs (fst (AddDocument e s id' c md embedding)) = jobs s
   \<and> dimensions (fst (AddDocument e s id' c md embedding)) = dimensions s"
  by (auto simp add: AddDocument_def Let_def vec0_accepts_def tick_def rollback_def)

lemma AddDocument_refused:
  assumes "\<not> vec0_replaces e" "documents_vec s id' \<noteq> None"
  shows "\<exists>err. snd (AddDocument e s id' c md embedding) = Inl err"
    and "documents (fst (AddDocument e s id' c md embedding)) = documents s"
    and "documents_vec (fst (AddDocument e s id' c md embedding)) = documents_vec s"
  using assms by (auto simp add: AddDocument_def Let_def tick_def rollback_def)

lemma DeleteDocument_outcome:
  "(case snd (DeleteDocument e s id') of
      Inl msg \<Rightarrow> documents (fst (DeleteDocument e s id')) = documents s
               \<and> documents_vec (fst (DeleteDocument e s id')) = documents_vec s
    | Inr u \<Rightarrow> documents (fst (DeleteDocument e s id')) = (documents s)(id' := None)
             \<and> documents_vec (fst (DeleteDocument e s id')) = (documents_vec s)(id' := None))
   \<and> jobs (fst (DeleteDocument e s id')) = jobs s
   \<and> dimensions (fst (DeleteDocument e s id')) = dimensions s"
  by (simp add: DeleteDocument_def Let_def tick_def rollback_def)

lemma job_ops_frame:
  "documents (fst (update_where_id e s id' f)) = documents s
   \<and> documents_vec (fst (update_where_id e s id' f)) = documents_vec s
   \<and> dimensions (fst (update_where_id e s id' f)) = dimensions s"
  "documents (fst (CreateJob e s id' jobType params)) = documents s
   \<and> documents_vec (fst (CreateJob e s id' jobType params)) = documents_vec s
   \<and> dimensions (fst (CreateJob e s id' jobType params)) = dimensions s"
  "documents (fst (CreateJobWithParent e s id' jobType params parentID)) = documents s
   \<and> documents_vec (fst (CreateJobWithParent e s id' jobType params parentID)) = documents_vec s
   \<and> dimensions (fst (CreateJobWithParent e s id' jobType params parentID)) = dimensions s"
  "documents (fst (GetJob e s id')) = documents s
   \<and> documents_vec (fst (GetJob e s id')) = documents_vec s
   \<and> dimensions (fst (GetJob e s id')) = dimensions s"
  "documents (fst (GetDocument e s id')) = documents s
   \<and> documents_vec (fst (GetDocument e s id')) = documents_vec s
   \<and> dimensions (fst (GetDocument e s id')) = dimensions s
   \<and> jobs (fst (GetDocument e s id')) = jobs s"
  "documents (fst (DeleteJobs e s st)) = documents s
   \<and> documents_vec (fst (DeleteJobs e s st)) = documents_vec s
   \<and> dimensions (fst (DeleteJobs e s st)) = dimensions s"
  "documents (fst (GetNextPendingJob e s)) = documents s
   \<and> documents_vec (fst (GetNextPendingJob e s)) = documents_vec s
   \<and> dimensions (fst (GetNextPendingJob e s)) = dimensions s"
  by (simp_all add: update_where_id_def CreateJob_def CreateJobWithParent_def GetJob_def
      GetDocument_def DeleteJobs_def GetNextPendingJob_def Let_def tick_def rollback_def
      split: option.splits)

lemma apply_op_paired: "paired s \<Longrightarrow> paired (apply_op e s op)"
proof (cases op)
  case (OpAddDocument id' c md embedding)
  assume p: "paired s"
  show ?thesis
  proof (cases "snd (AddDocument e s id' c md embedding)")
    case (Inl msg)
    with AddDocument_outcome [where e = e and s = s and id' = id' and c = c and md = md and embedding = embedding] p
    show ?thesis unfolding OpAddDocument by (simp add: paired_def)
  next
    case (Inr u)
    with AddDocument_outcome [where e = e and s = s and id' = id' and c = c and md = md and embedding = embedding] p
    show ?thesis unfolding OpAddDocument by (auto simp: paired_def)
  qed
next
  case (OpDeleteDocument id')
  assume p: "paired s"
  show ?thesis
  proof (cases "snd (DeleteDocument e s id')")
    case (Inl msg)
    with DeleteDocument_outcome [where e = e and s = s and id' = id'] p
    show ?thesis unfolding OpDeleteDocument by (simp add: paired_def)
  next
    case (Inr u)
    with DeleteDocument_outcome [where e = e and s = s and id' = id'] p
    show ?thesis unfolding OpDeleteDocument by (auto simp: paired_def)
  qed
qed (simp_all add: paired_def job_ops_frame UpdateJobStatus_def UpdateJobProgress_def
      UpdateJobResult_def UpdateJobError_def)

lemma apply_op_dimensions: "dimensions (apply_op e s op) = dimensions s"
  by (cases op) (simp_all add: job_ops_frame AddDocument_outcome DeleteDocument_outcome
      UpdateJobStatus_def UpdateJobProgress_def UpdateJobResult_def UpdateJobError_def)

lemma foldl_paired: "paired s \<Longrightarrow> paired (foldl (apply_op e) s ops)"
  by (induction ops arbitrary: s) (simp_all add: apply_op_paired)

lemma foldl_dimensions: "dimensions (foldl (apply_op e) s ops) = dimensions s"
  by (induction ops arbitrary: s) (simp_all add: apply_op_dimensions)

lemma run_ops_paired: "paired (run_ops e d ops)"
  unfolding run_ops_def by (rule foldl_paired) (simp add: paired_def New_store_def)

lemma run_ops_dimensions: "dimensions (run_ops e d ops) = d"
  by (simp add: run_ops_def foldl_dimensions New_store_def)


text \<open>
  Claim C4 (every document row has its embedding row).  In every store reached from a fresh
  database by calls of the store's operations, whichever of them fail, the two tables have
  the same ids (each id is a primary key, so a row is the only one of its id) and every
  stored vector has the store's dimension.  \<open>AddDocument\<close> either fails and leaves both
  tables as they were, or writes the document row and the vector row of the id;
  \<open>DeleteDocument\<close> either fails and leaves both tables as they were, or removes the id
  from both.
\<close>

theorem documents_paired_with_embeddings:
  "dom (documents (run_ops e d ops)) = dom (documents_vec (run_ops e d ops))
   \<and> (\<forall>i v. documents_vec (run_ops e d ops) i = Some v \<longrightarrow> int (length v) = d)
   \<and> (case snd (AddDocument e s id' c md embedding) of
         Inl msg \<Rightarrow> documents (fst (AddDocument e s id' c md embedding)) = documents s
                  \<and> documents_vec (fst (AddDocument e s id' c md embedding)) = documents_vec s
       | Inr u \<Rightarrow> documents (fst (AddDocument e s id' c md embedding)) =
                    (documents s)(id' \<mapsto> \<lparr>content = c, metadata = md, created_at = clock e (stmts s + 1)\<rparr>)
                \<and> documents_vec (fst (AddDocument e s id' c md embedding)) = (documents_vec s)(id' \<mapsto> embedding))
   \<and> (case snd (DeleteDocument e s id') of
         Inl msg \<Rightarrow> documents (fst (DeleteDocument e s id')) = documents s
                  \<and> documents_vec (fst (DeleteDocument e s id')) = documents_vec s
       | Inr u \<Rightarrow> documents (fst (DeleteDocument e s id')) = (documents s)(id' := None)
                \<and> documents_vec (fst (DeleteDocument e s id')) = (documents_vec s)(id' := None))"
proof -
  have "paired (run_ops e d ops)" by (rule run_ops_paired)
  then have a: "dom (documents (run_ops e d ops)) = dom (documents_vec (run_ops e d ops))"
    and b: "\<forall>i v. documents_vec (run_ops e d ops) i = Some v \<longrightarrow> int (length v) = d"
    by (simp_all add: paired_def run_ops_dimensions)
  from AddDocument_outcome [where e = e and s = s and id' = id' and c = c and md = md and embedding = embedding]
  have c: "case snd (AddDocument e s id' c md embedding) of
         Inl msg \<Rightarrow> documents (fst (AddDocument e s id' c md embedding)) = documents s
                  \<and> documents_vec (fst (AddDocument e s id' c md embedding)) = documents_vec s
       | Inr u \<Rightarrow> documents (fst (AddDocument e s id' c md embedding)) =
                    (documents s)(id' \<mapsto> \<lparr>content = c, metadata = md, created_at = clock e (stmts s + 1)\<rparr>)
                \<and> documents_vec (fst (AddDocument e s id' c md embedding)) = (documents_vec s)(id' \<mapsto> embedding)"
    by (cases "snd (AddDocument e s id' c md embedding)") simp_all
  from DeleteDocument_outcome [where e = e and s = s and id' = id']
  have d: "case snd (DeleteDocument e s id') of
         Inl msg \<Rightarrow> documents (fst (DeleteDocument e s id')) = documents s
                  \<and> documents_vec (fst (DeleteDocument e s id')) = documents_vec s
       | Inr u \<Rightarrow> documents (fst (DeleteDocument e s id')) = (documents s)(id' := None)
                \<and> documents_vec (fst (DeleteDocument e s id')) = (documents_vec s)(id' := None)"
    by simp
  from a b c d show ?thesis by (intro conjI)
qed

definition three_calls :: "store_op list" where
  "three_calls = [OpAddDocument ''a'' ''some text'' None [0, 0, 0],
                  OpAddDocument ''b'' ''more text'' None [0, 0],
                  OpAddDocument ''c'' ''other text'' None [0, 0, 0],
                  OpDeleteDocument ''c'']"

theorem documents_paired_with_embeddings_witness:
  "documents_vec (run_ops calm 3 three_calls) ''a'' = Some [0, 0, 0]
   \<and> int (length [0, 0, 0 :: float32]) = 3
   \<and> documents (run_ops calm 3 three_calls) ''a''
       = Some \<lparr>content = ''some text'', metadata = None, created_at = 1\<rparr>
   \<and> documents (run_ops calm 3 three_calls) ''b'' = None
   \<and> documents_vec (run_ops calm 3 three_calls) ''b'' = None
   \<and> documents (run_ops calm 3 three_calls) ''c'' = None
   \<and> documents_vec (run_ops calm 3 three_calls) ''c'' = None"
proof -
  have ev: ?thesis
    by (simp add: run_ops_def three_calls_def calm_def New_store_def AddDocument_def
        DeleteDocument_def tick_def rollback_def vec0_accepts_def unsupportedFloat_def Let_def)
  show ?thesis
    using documents_paired_with_embeddings [where e = calm and d = 3 and ops = three_calls
        and s = "New_store 3" and id' = "''a''" and c = "''some text''" and md = None
        and embedding = "[0, 0, 0]"]
    by (rule_tac ev)
qed

subsection \<open>The ids that GetNextPendingJob returns in a run\<close>

definition store_after :: "env \<Rightarrow> store \<Rightarrow> store_op list \<Rightarrow> nat \<Rightarrow> store" where
  \<comment> \<open>The store after the first \<open>n\<close> calls of a sequence made on \<open>s\<close>.\<close>
  "store_after e s ops n = foldl (apply_op e) s (take n ops)"

definition returned_id :: "env \<Rightarrow> store \<Rightarrow> store_op \<Rightarrow> string option" where
  \<comment> \<open>The id of the job that the call returns, when the call is \<open>GetNextPendingJob\<close> and it
      returns a job.\<close>
  "returned_id e s op =
     (case op of
        OpGetNextPendingJob \<Rightarrow>
          (case snd (GetNextPendingJob e s) of Inr (Some job) \<Rightarrow> Some (JobID job) | _ \<Rightarrow> None)
      | _ \<Rightarrow> None)"

definition requeues :: "string \<Rightarrow> store_op \<Rightarrow> bool" where
  \<comment> \<open>The calls that can give a job of this id the status \<open>queued\<close>: \<open>UpdateJobStatus\<close> with
      that status, and the two calls that insert a job.\<close>
  "requeues a op =
     (case op of
        OpUpdateJobStatus id' st \<Rightarrow> id' = a \<and> st = JobStatusQueued
      | OpCreateJob id' jobType params \<Rightarrow> id' = a
      | OpCreateJobWithParent id' jobType params parentID \<Rightarrow> id' = a
      | _ \<Rightarrow> False)"

definition no_queued :: "string \<Rightarrow> store \<Rightarrow> bool" where
  "no_queued a s = (\<forall>j \<in> set (jobs s). JobID j = a \<longrightarrow> Status j \<noteq> JobStatusQueued)"

lemma GetNextPendingJob_no_queued:
  assumes "no_queued a s"
  shows "no_queued a (fst (GetNextPendingJob e s))"
proof -
  obtain s1 res where g: "GetNextPendingJob e s = (s1, res)" by (cases "GetNextPendingJob e s")
  have "no_queued a s1"
  proof (cases "\<exists>job. res = Inr (Some job)")
    case True
    then obtain job where "res = Inr (Some job)" by blast
    with GetNextPendingJob_cases [where e = e and s = s] g
    obtain row where "jobs s1 = claimed e s row" by auto
    with assms show ?thesis by (auto simp: no_queued_def claimed_def status_names_differ)
  next
    case False
    with GetNextPendingJob_cases [where e = e and s = s] g have "jobs s1 = jobs s"
      by (cases res) (auto split: option.splits)
    with assms show ?thesis by (simp add: no_queued_def)
  qed
  with g show ?thesis by simp
qed

lemma apply_op_no_queued:
  assumes "no_queued a s" "\<not> requeues a op"
  shows "no_queued a (apply_op e s op)"
proof (cases op)
  case (OpAddDocument id' c md embedding)
  with assms(1) AddDocument_outcome [where e = e and s = s and id' = id' and c = c and md = md
      and embedding = embedding]
  show ?thesis by (simp add: no_queued_def)
next
  case (OpDeleteDocument id')
  with assms(1) DeleteDocument_outcome [where e = e and s = s and id' = id']
  show ?thesis by (simp add: no_queued_def)
next
  case (OpGetDocument id')
  with assms(1) show ?thesis by (simp add: no_queued_def GetDocument_def)
next
  case (OpCreateJob id' jobType params)
  with assms show ?thesis by (auto simp: no_queued_def requeues_def CreateJob_def)
next
  case (OpCreateJobWithParent id' jobType params parentID)
  with assms show ?thesis by (auto simp: no_queued_def requeues_def CreateJobWithParent_def)
next
  case (OpGetJob id')
  with assms(1) show ?thesis by (simp add: no_queued_def GetJob_def)
next
  case (OpUpdateJobStatus id' st)
  with assms show ?thesis
    by (auto simp: no_queued_def requeues_def UpdateJobStatus_def update_where_id_def)
next
  case (OpUpdateJobProgress id' p n)
  with assms(1) show ?thesis
    by (auto simp: no_queued_def UpdateJobProgress_def update_where_id_def)
next
  case (OpUpdateJobResult id' res)
  with assms(1) show ?thesis
    by (auto simp: no_queued_def UpdateJobResult_def update_where_id_def status_names_differ)
next
  case (OpUpdateJobError id' errMsg)
  with assms(1) show ?thesis
    by (auto simp: no_queued_def UpdateJobError_def update_where_id_def status_names_differ)
next
  case OpGetNextPendingJob
  with GetNextPendingJob_no_queued [OF assms(1)] show ?thesis by simp
next
  case (OpDeleteJobs st)
  with assms(1) show ?thesis by (auto simp: no_queued_def DeleteJobs_def)
qed

lemma returned_id_claims:
  assumes "returned_id e s op = Some a"
  shows "op = OpGetNextPendingJob" "no_queued a (apply_op e s op)"
    "\<exists>j \<in> set (jobs s). JobID j = a \<and> Status j = JobStatusQueued"
proof -
  from assms show op: "op = OpGetNextPendingJob"
    by (cases op) (simp_all add: returned_id_def)
  with assms obtain job where job: "snd (GetNextPendingJob e s) = Inr (Some job)" "JobID job = a"
    by (auto simp: returned_id_def split: sum.splits option.splits)
  then obtain s1 where g: "GetNextPendingJob e s = (s1, Inr (Some job))"
    by (cases "GetNextPendingJob e s") auto
  with GetNextPendingJob_cases [where e = e and s = s]
  obtain row where row: "row \<in> set (jobs s)" "Status row = JobStatusQueued"
      "job = row\<lparr>Status := JobStatusProcessing\<rparr>" "jobs s1 = claimed e s row"
    by auto
  from row(1,2,3) job(2) show "\<exists>j \<in> set (jobs s). JobID j = a \<and> Status j = JobStatusQueued"
    by auto
  from row(3,4) job(2) g op show "no_queued a (apply_op e s op)"
    by (auto simp: no_queued_def claimed_def status_names_differ)
qed

lemma store_after_Suc:
  "n < length ops \<Longrightarrow> store_after e s ops (Suc n) = apply_op e (store_after e s ops n) (ops ! n)"
  by (simp add: store_after_def take_Suc_conv_app_nth)

lemma no_queued_until:
  assumes "i < k" "k \<le> length ops" "returned_id e (store_after e s ops i) (ops ! i) = Some a"
    and "\<forall>m. i < m \<and> m < k \<longrightarrow> \<not> requeues a (ops ! m)"
  shows "no_queued a (store_after e s ops k)"
proof -
  from assms(1) have "Suc i \<le> k" by simp
  from this assms(2,4) show ?thesis
  proof (induction k rule: dec_induct)
    case base
    from base.prems(1) have "i < length ops" by simp
    with returned_id_claims(2) [OF assms(3)] show ?case by (simp add: store_after_Suc)
  next
    case (step n)
    from step.prems step.hyps have n: "n < length ops" "i < n" "n < Suc n" by simp_all
    from step have "no_queued a (store_after e s ops n)" by simp
    moreover from step.prems(2) n have "\<not> requeues a (ops ! n)" by blast
    ultimately show ?case using n(1) by (simp add: store_after_Suc apply_op_no_queued)
  qed
qed

lemma returned_twice_requeued:
  assumes "i < k" "k < length ops"
    and "returned_id e (store_after e s ops i) (ops ! i) = Some a"
    and "returned_id e (store_after e s ops k) (ops ! k) = Some a"
  shows "\<exists>m. i < m \<and> m < k \<and> requeues a (ops ! m)"
proof (rule ccontr)
  assume "\<not> ?thesis"
  then have "\<forall>m. i < m \<and> m < k \<longrightarrow> \<not> requeues a (ops ! m)" by blast
  with no_queued_until [OF assms(1) _ assms(3)] assms(2)
  have "no_queued a (store_after e s ops k)" by simp
  with returned_id_claims(3) [OF assms(4)] show False by (auto simp: no_queued_def)
qed

text \<open>
  Claim C3 (GetNextPendingJob), as amended.  When no database call fails and some job is
  queued, the call returns a queued row with the least \<open>created_at\<close>, with its status set to
  \<open>processing\<close> in the struct and, by the same transaction, in the table, where no other job
  changes; when no database call fails and no job is queued it returns no job and leaves
  the table as it was; when it fails the table is as it was.  In every sequence of store
  calls, made on any store, two calls of \<open>GetNextPendingJob\<close> return the same job id only if
  one of the calls between them is \<open>UpdateJobStatus\<close> for that id with the status \<open>queued\<close>,
  or \<open>CreateJob\<close> or \<open>CreateJobWithParent\<close> for that id.  The transaction is one step of
  the model, as SQLite serialises the transactions that write.
\<close>

theorem GetNextPendingJob_claims_oldest:
  "(\<not> fails e (stmts s) \<and> \<not> fails e (stmts s + 1) \<and> \<not> fails e (stmts s + 2) \<and> \<not> fails e (stmts s + 3)
      \<and> (\<exists>j \<in> set (jobs s). Status j = JobStatusQueued) \<longrightarrow>
      (\<exists>row \<in> set (jobs s). Status row = JobStatusQueued
          \<and> (\<forall>k \<in> set (jobs s). Status k = JobStatusQueued \<longrightarrow> JobCreatedAt row \<le> JobCreatedAt k)
          \<and> snd (GetNextPendingJob e s) = Inr (Some (row\<lparr>Status := JobStatusProcessing\<rparr>))
          \<and> jobs (fst (GetNextPendingJob e s)) = claimed e s row))
   \<and> (\<not> fails e (stmts s) \<and> \<not> fails e (stmts s + 1)
      \<and> \<not> (\<exists>j \<in> set (jobs s). Status j = JobStatusQueued) \<longrightarrow>
      snd (GetNextPendingJob e s) = Inr None \<and> jobs (fst (GetNextPendingJob e s)) = jobs s)
   \<and> (\<forall>err. snd (GetNextPendingJob e s) = Inl err \<longrightarrow> jobs (fst (GetNextPendingJob e s)) = jobs s)
   \<and> (\<forall>i k a. i < k \<and> k < length ops
         \<and> returned_id e (store_after e s0 ops i) (ops ! i) = Some a
         \<and> returned_id e (store_after e s0 ops k) (ops ! k) = Some a \<longrightarrow>
         (\<exists>m. i < m \<and> m < k \<and> requeues a (ops ! m)))"
  using GetNextPendingJob_some_queued [where e = e and s = s]
    GetNextPendingJob_none_queued [where e = e and s = s]
    GetNextPendingJob_error_unchanged [where e = e and s = s]
    returned_twice_requeued [where e = e and s = s0 and ops = ops]
  by blast

definition requeue_run :: "store_op list" where
  \<comment> \<open>A job is created and claimed, set back to \<open>queued\<close> and claimed again.\<close>
  "requeue_run = [OpCreateJob ''a'' JobTypeIndexFile ''{}'', OpGetNextPendingJob,
                  OpUpdateJobStatus ''a'' JobStatusQueued, OpGetNextPendingJob]"

definition claim_run :: "store_op list" where
  \<comment> \<open>Two jobs are created and three claims are made.\<close>
  "claim_run = [OpCreateJob ''a'' JobTypeIndexFile ''{}'', OpCreateJob ''b'' JobTypeIndexFile ''{}'',
                OpGetNextPendingJob, OpGetNextPendingJob, OpGetNextPendingJob]"

text \<open>
  Without that condition the same id can come back: a job that was claimed and then set
  back to \<open>queued\<close> is returned by the next call.
\<close>

theorem GetNextPendingJob_returns_requeued_job:
  "returned_id calm (store_after calm (New_store 3) requeue_run 1) (requeue_run ! 1) = Some ''a''
   \<and> returned_id calm (store_after calm (New_store 3) requeue_run 3) (requeue_run ! 3) = Some ''a''"
  by code_simp

theorem GetNextPendingJob_claims_oldest_witness:
  "\<not> fails calm (stmts two_jobs) \<and> \<not> fails calm (stmts two_jobs + 1)
   \<and> \<not> fails calm (stmts two_jobs + 2) \<and> \<not> fails calm (stmts two_jobs + 3)
   \<and> map Status (jobs two_jobs) = [JobStatusQueued, JobStatusQueued]
   \<and> map JobCreatedAt (jobs two_jobs) = [0, 1]
   \<and> map_sum id (map_option JobID) (snd (GetNextPendingJob calm two_jobs)) = Inr (Some ''a'')
   \<and> map_sum id (map_option Status) (snd (GetNextPendingJob calm two_jobs)) = Inr (Some JobStatusProcessing)
   \<and> map Status (jobs (fst (GetNextPendingJob calm two_jobs))) = [JobStatusProcessing, JobStatusQueued]
   \<and> map (\<lambda>n. returned_id calm (store_after calm (New_store 3) claim_run n) (claim_run ! n)) [0, 1, 2, 3, 4]
       = [None, None, Some ''a'', Some ''b'', None]
   \<and> (1 :: nat) < 3 \<and> 3 < length requeue_run
   \<and> returned_id calm (store_after calm (New_store 3) requeue_run 1) (requeue_run ! 1) = Some ''a''
   \<and> returned_id calm (store_after calm (New_store 3) requeue_run 3) (requeue_run ! 3) = Some ''a''
   \<and> (\<exists>m. 1 < m \<and> m < 3 \<and> requeues ''a'' (requeue_run ! m))"
proof -
  have single: "\<not> fails calm (stmts two_jobs) \<and> \<not> fails calm (stmts two_jobs + 1)
      \<and> \<not> fails calm (stmts two_jobs + 2) \<and> \<not> fails calm (stmts two_jobs + 3)
      \<and> map Status (jobs two_jobs) = [JobStatusQueued, JobStatusQueued]
      \<and> map JobCreatedAt (jobs two_jobs) = [0, 1]
      \<and> map_sum id (map_option JobID) (snd (GetNextPendingJob calm two_jobs)) = Inr (Some ''a'')
      \<and> map_sum id (map_option Status) (snd (GetNextPendingJob calm two_jobs)) = Inr (Some JobStatusProcessing)
      \<and> map Status (jobs (fst (GetNextPendingJob calm two_jobs))) = [JobStatusProcessing, JobStatusQueued]"
    by (simp add: two_jobs_def calm_def CreateJob_def GetNextPendingJob_def New_store_def tick_def
        rollback_def Let_def JobStatusQueued_def JobStatusProcessing_def)
  have claims: "map (\<lambda>n. returned_id calm (store_after calm (New_store 3) claim_run n) (claim_run ! n))
        [0, 1, 2, 3, 4] = [None, None, Some ''a'', Some ''b'', None]"
    by code_simp
  have h: "(1 :: nat) < 3 \<and> 3 < length requeue_run
      \<and> returned_id calm (store_after calm (New_store 3) requeue_run 1) (requeue_run ! 1) = Some ''a''
      \<and> returned_id calm (store_after calm (New_store 3) requeue_run 3) (requeue_run ! 3) = Some ''a''"
    by code_simp
  from GetNextPendingJob_claims_oldest [where e = calm and s = two_jobs and ?s0.0 = "New_store 3"
      and ops = requeue_run] h
  have "\<exists>m. 1 < m \<and> m < 3 \<and> requeues ''a'' (requeue_run ! m)" by blast
  with single claims h show ?thesis by blast
qed

section \<open>The indexer (internal/goldie/goldie.go)\<close>

subsection \<open>Formatting\<close>

function itoa :: "nat \<Rightarrow> string" where
  \<comment> \<open>\<^verbatim>\<open>fmt.Sprintf("%d", i)\<close> for \<open>i \<ge> 0\<close>: the decimal digits.\<close>
  "itoa n = (if n < 10 then [''0123456789'' ! n] else itoa (n div 10) @ [''0123456789'' ! (n mod 10)])"
  by pat_completeness auto
termination
  by (relation "measure id") auto

declare itoa.simps [simp del]

definition chunkID :: "string \<Rightarrow> nat \<Rightarrow> string" where
  \<comment> \<open>\<^verbatim>\<open>fmt.Sprintf("%s_chunk_%d", id, i)\<close>\<close>
  "chunkID id' i = id' @ ''_chunk_'' @ itoa i"

lemma itoa_0: "itoa 0 = ''0''"
  by (simp add: itoa.simps [of 0])

lemma itoa_nonempty: "itoa n \<noteq> []"
  by (subst itoa.simps) simp

lemma itoa_eq_0: "itoa n = ''0'' \<longleftrightarrow> n = 0"
proof
  assume a: "itoa n = ''0''"
  show "n = 0"
  proof (cases "n < 10")
    case True
    then have "n \<in> {0, 1, 2, 3, 4, 5, 6, 7, 8, 9}" by auto
    with a True show ?thesis by (auto simp: itoa.simps [of n])
  next
    case False
    then have "itoa n = itoa (n div 10) @ [''0123456789'' ! (n mod 10)]"
      by (simp add: itoa.simps [of n])
    with a itoa_nonempty [of "n div 10"] show ?thesis by (cases "itoa (n div 10)") auto
  qed
qed (simp add: itoa_0)

lemma chunkID_0: "chunkID id' 0 = id' @ ''_chunk_0''"
  by (simp add: chunkID_def itoa_0)

lemma chunkID_eq_0: "chunkID id' i = chunkID id' 0 \<longleftrightarrow> i = 0"
  by (simp add: chunkID_def itoa_eq_0 itoa_0)

lemma chunkID_neq_id: "chunkID id' i \<noteq> id'"
  by (simp add: chunkID_def)

subsection \<open>Go maps as heap objects\<close>

text \<open>
  A Go map is a reference to a table that every holder of the reference can change.  The
  heap maps the address of each map made so far to its contents; a value of a map type is
  an address, or nil (\<open>None\<close>).
\<close>

type_synonym ref = nat

record heap =
  cells :: "ref \<rightharpoonup> (string \<rightharpoonup> string)"
  fresh :: ref

definition make_map :: "heap \<Rightarrow> heap \<times> ref" where
  \<comment> \<open>\<^verbatim>\<open>make(map[string]string)\<close>\<close>
  "make_map h = (h\<lparr>cells := (cells h)(fresh h \<mapsto> Map.empty), fresh := fresh h + 1\<rparr>, fresh h)"

definition contents :: "heap \<Rightarrow> ref option \<Rightarrow> (string \<rightharpoonup> string) option" where
  \<comment> \<open>What a reader of the map sees: nothing for nil.\<close>
  "contents h m = (case m of None \<Rightarrow> None | Some a \<Rightarrow> cells h a)"

definition assign :: "heap \<Rightarrow> ref \<Rightarrow> string \<Rightarrow> string \<Rightarrow> heap" where
  \<comment> \<open>\<^verbatim>\<open>m[k] = v\<close> on a map that was made.\<close>
  "assign h a k v =
     h\<lparr>cells := (cells h)(a \<mapsto> (case cells h a of None \<Rightarrow> [k \<mapsto> v] | Some m \<Rightarrow> m(k \<mapsto> v)))\<rparr>"

definition maps_Copy :: "heap \<Rightarrow> ref \<Rightarrow> ref option \<Rightarrow> heap" where
  \<comment> \<open>\<^verbatim>\<open>maps.Copy(dst, src)\<close>: every entry of \<open>src\<close> is assigned in \<open>dst\<close>.\<close>
  "maps_Copy h dst src =
     (case contents h src of
        None \<Rightarrow> h
      | Some m \<Rightarrow> h\<lparr>cells := (cells h)(dst \<mapsto> (case cells h dst of None \<Rightarrow> m | Some d \<Rightarrow> d ++ m))\<rparr>)"

definition index_map :: "(string \<rightharpoonup> string) \<Rightarrow> string \<Rightarrow> string" where
  \<comment> \<open>\<^verbatim>\<open>m[k]\<close> read: the empty string for a missing key.\<close>
  "index_map m k = (case m k of None \<Rightarrow> [] | Some v \<Rightarrow> v)"

subsection \<open>Index, IndexFile, DeleteDocumentAndChunks\<close>

datatype 'a result = Ok 'a | Err error | Panic panic

record IndexResult =
  ResultID :: string
  ChunkCount :: int

definition ignoring_error :: "store \<times> (error + 'a option) \<Rightarrow> store \<times> 'a option" where
  \<comment> \<open>\<^verbatim>\<open>doc, _ := r.store.GetDocument(id)\<close>: a failed query reads as "no document".\<close>
  "ignoring_error p = (fst p, case snd p of Inl err \<Rightarrow> None | Inr d \<Rightarrow> d)"

definition newChunkMeta :: "heap \<Rightarrow> ref option \<Rightarrow> string \<Rightarrow> nat \<Rightarrow> nat \<Rightarrow> heap \<times> ref" where
  \<comment> \<open>The metadata of chunk \<open>i\<close> of \<open>n\<close>: a map made for the chunk, filled with the caller's
      entries and then with the three reserved keys.\<close>
  "newChunkMeta h md id' i n =
     (let (h, chunkMeta) = make_map h;
          h = maps_Copy h chunkMeta md;
          h = assign h chunkMeta ''parent_id'' id';
          h = assign h chunkMeta ''chunk_index'' (itoa i);
          h = assign h chunkMeta ''total_chunks'' (itoa n)
      in (h, chunkMeta))"

fun storeChunks ::
  "env \<Rightarrow> heap \<Rightarrow> store \<Rightarrow> ref option \<Rightarrow> string \<Rightarrow> nat \<Rightarrow> nat \<Rightarrow> string list
     \<Rightarrow> (heap \<times> store) \<times> (error + unit)" where
  \<comment> \<open>The loop \<^verbatim>\<open>for i, chunk := range chunks\<close> of \<open>Index\<close>, from index \<open>i\<close> on; \<open>n\<close> is
      \<^verbatim>\<open>len(chunks)\<close>.\<close>
  "storeChunks e h s md id' n i [] = ((h, s), Inr ())"
| "storeChunks e h s md id' n i (chunk # rest) =
     (let (h, chunkMeta) = newChunkMeta h md id' i n
      in case Embed e chunk of
           Inl err \<Rightarrow> ((h, s), Inl (''generating embedding for chunk '' @ itoa i @ '': '' @ err))
         | Inr embedding \<Rightarrow>
             (case AddDocument e s (chunkID id' i) chunk (contents h (Some chunkMeta)) embedding of
                (s, Inl err) \<Rightarrow> ((h, s), Inl (''storing chunk '' @ itoa i @ '': '' @ err))
              | (s, Inr u) \<Rightarrow> storeChunks e h s md id' n (i + 1) rest))"

definition Index ::
  "env \<Rightarrow> Goldie \<Rightarrow> heap \<Rightarrow> store \<Rightarrow> string \<Rightarrow> ref option \<Rightarrow> string
     \<Rightarrow> (heap \<times> store) \<times> IndexResult result" where
  "Index e r h s c md id0 =
     (if c = [] then ((h, s), Err ''empty content'')
      else
        let id' = (if id0 = [] then uuid e (stmts s) else id0) in
        if int (length c) \<le> chunkSize r then
          (case Embed e c of
             Inl err \<Rightarrow> ((h, s), Err (''generating embedding: '' @ err))
           | Inr embedding \<Rightarrow>
               (case AddDocument e s id' c (contents h md) embedding of
                  (s, Inl err) \<Rightarrow> ((h, s), Err (''storing document: '' @ err))
                | (s, Inr u) \<Rightarrow> ((h, s), Ok \<lparr>ResultID = id', ChunkCount = 1\<rparr>)))
        else
          (case chunkText r c of
             Inl p \<Rightarrow> ((h, s), Panic p)
           | Inr chunks \<Rightarrow>
               (case storeChunks e h s md id' (length chunks) 0 chunks of
                  (hs, Inl err) \<Rightarrow> (hs, Err err)
                | (hs, Inr u) \<Rightarrow> (hs, Ok \<lparr>ResultID = id', ChunkCount = int (length chunks)\<rparr>))))"

function deleteChunks :: "env \<Rightarrow> store \<Rightarrow> string \<Rightarrow> nat \<Rightarrow> int \<Rightarrow> store \<times> int" where
  \<comment> \<open>The loop \<^verbatim>\<open>for i := range 10000\<close> of \<open>DeleteDocumentAndChunks\<close>, from \<open>i\<close> on.\<close>
  "deleteChunks e s id' i deleted =
     (if i < 10000 then
        (case ignoring_error (GetDocument e s (chunkID id' i)) of
           (s, None) \<Rightarrow> (s, deleted)
         | (s, Some doc) \<Rightarrow>
             deleteChunks e (fst (DeleteDocument e s (chunkID id' i))) id' (i + 1) (deleted + 1))
      else (s, deleted))"
  by pat_completeness auto
termination
  by (relation "measure (\<lambda>(e, s, id', i, deleted). 10000 - i)") auto

declare deleteChunks.simps [simp del]

definition DeleteDocumentAndChunks :: "env \<Rightarrow> store \<Rightarrow> string \<Rightarrow> store \<times> int" where
  "DeleteDocumentAndChunks e s id' =
     (case ignoring_error (GetDocument e s id') of
        (s, None) \<Rightarrow> deleteChunks e s id' 0 0
      | (s, Some doc) \<Rightarrow> deleteChunks e (fst (DeleteDocument e s id')) id' 0 1)"

definition checksum_matches :: "Document option \<Rightarrow> string \<Rightarrow> bool" where
  \<comment> \<open>\<^verbatim>\<open>existing != nil && existing.Metadata != nil && existing.Metadata["checksum"] == checksum\<close>\<close>
  "checksum_matches existing checksum =
     (case existing of
        None \<Rightarrow> False
      | Some doc \<Rightarrow>
          (case Metadata doc of None \<Rightarrow> False | Some m \<Rightarrow> index_map m ''checksum'' = checksum))"

definition Base :: "string \<Rightarrow> string" where
  \<comment> \<open>\<^verbatim>\<open>filepath.Base\<close> (Unix): the last element of the path, trailing slashes removed;
      \<^verbatim>\<open>"."\<close> for the empty path and \<^verbatim>\<open>"/"\<close> for a path of slashes only.\<close>
  "Base path =
     (if path = [] then ''.''
      else
        let stripped = rev (dropWhile (\<lambda>c. c = CHR ''/'') (rev path));
            last_element = rev (takeWhile (\<lambda>c. c \<noteq> CHR ''/'') (rev stripped))
        in if last_element = [] then ''/'' else last_element)"

definition IndexFile ::
  "env \<Rightarrow> Goldie \<Rightarrow> heap \<Rightarrow> store \<Rightarrow> string \<Rightarrow> (heap \<times> store) \<times> IndexResult result" where
  "IndexFile e r h s path =
     (let id' = Base path in
      case ReadFile e path of
        Inl err \<Rightarrow> ((h, s), Err (''reading file: '' @ err))
      | Inr c \<Rightarrow>
          (let checksum = sha256hex e c;
               (s, existing) = ignoring_error (GetDocument e s id')
           in if checksum_matches existing checksum
              then ((h, s), Ok \<lparr>ResultID = id', ChunkCount = 0\<rparr>)
              else
                let (s, existingChunk) = ignoring_error (GetDocument e s (id' @ ''_chunk_0''))
                in if checksum_matches existingChunk checksum
                   then ((h, s), Ok \<lparr>ResultID = id', ChunkCount = 0\<rparr>)
                   else
                     let s = (if existing \<noteq> None \<or> existingChunk \<noteq> None
                              then fst (DeleteDocumentAndChunks e s id') else s);
                         (h, md) = make_map h;
                         h = assign h md ''source'' path;
                         h = assign h md ''filename'' (Base path);
                         h = assign h md ''checksum'' checksum
                     in Index e r h s c (Some md) id'))"

section \<open>Tool handlers (main.go)\<close>

text \<open>
  A tool request carries its arguments as a JSON object: each argument is absent, a string,
  a number (a \<^verbatim>\<open>float64\<close>: finite, so a rational) or something else.  A handler answers
  with an error text or with a text, which for \<open>delete_document\<close> is the JSON object given
  here by its fields in the order of their keys.
\<close>

datatype arg = StringArg string | NumberArg rat | BoolArg bool | OtherArg

datatype json = JString string | JInt int | JBool bool

datatype tool_result = ToolResultError string | ToolResultText "(string \<times> json) list"

definition statusEmoji :: string where
  "statusEmoji = [CHR 0xF0, CHR 0x9F, CHR 0x90, CHR 0x95]"

definition fmt_d :: "int \<Rightarrow> string" where
  \<comment> \<open>\<^verbatim>\<open>%d\<close> of an int\<close>
  "fmt_d i = (if i < 0 then ''-'' @ itoa (nat (- i)) else itoa (nat i))"

definition handleDeleteDocument :: "env \<Rightarrow> store \<Rightarrow> (string \<rightharpoonup> arg) \<Rightarrow> store \<times> tool_result" where
  "handleDeleteDocument e s args =
     (case args ''id'' of
        Some (StringArg id') \<Rightarrow>
          if id' = [] then (s, ToolResultError ''id is required'')
          else
            (case DeleteDocumentAndChunks e s id' of
               (s, deleted) \<Rightarrow>
                 if deleted = 0 then (s, ToolResultError (''document not found: '' @ id'))
                 else (s, ToolResultText
                        [(''deleted_count'', JInt deleted), (''id'', JString id'),
                         (''message'', JString (statusEmoji @ '' Deleted '' @ fmt_d deleted
                                                  @ '' document(s)/chunk(s) for: '' @ id')),
                         (''success'', JBool True)]))
      | _ \<Rightarrow> (s, ToolResultError ''id is required''))"

definition float64_to_int :: "(rat \<Rightarrow> int) \<Rightarrow> rat \<Rightarrow> int" where
  \<comment> \<open>Go's conversion \<^verbatim>\<open>int(x)\<close> of a float64 discards the fraction.  When the result does
      not fit a 64-bit int the language leaves the value to the implementation: \<open>impl\<close>.\<close>
  "float64_to_int impl x =
     (let t = (if 0 \<le> x then \<lfloor>x\<rfloor> else \<lceil>x\<rceil>)
      in if - (2 ^ 63) \<le> t \<and> t < 2 ^ 63 then t else impl x)"

definition recallDepth :: "(rat \<Rightarrow> int) \<Rightarrow> (string \<rightharpoonup> arg) \<Rightarrow> int" where
  \<comment> \<open>The \<open>depth\<close> that \<open>handleRecall\<close> passes to \<open>Query\<close>.\<close>
  "recallDepth impl args =
     (case args ''depth'' of
        Some (NumberArg depthVal) \<Rightarrow> max (min (float64_to_int impl depthVal) 20) 1
      | _ \<Rightarrow> 5)"

definition searchLimit :: "int \<Rightarrow> int" where
  \<comment> \<open>\<open>Query\<close> and then \<open>Search\<close> replace a limit that is not positive by 5; the result is the
      \<open>k\<close> of the nearest-neighbour query.\<close>
  "searchLimit limit = (if limit \<le> 0 then 5 else limit)"

lemma float64_to_int_in_range:
  assumes "- (2 ^ 63) < x" "x < 2 ^ 63"
  shows "float64_to_int impl x = (if 0 \<le> x then \<lfloor>x\<rfloor> else \<lceil>x\<rceil>)"
proof -
  have "- (2 ^ 63) \<le> (if 0 \<le> x then \<lfloor>x\<rfloor> else \<lceil>x\<rceil>)"
  proof (cases "0 \<le> x")
    case True
    then have "0 \<le> \<lfloor>x\<rfloor>" by simp
    with True show ?thesis by simp
  next
    case False
    have "of_int (- (2 ^ 63) :: int) \<le> x" using assms by simp
    then have "- (2 ^ 63) \<le> \<lceil>x\<rceil>" by (metis le_of_int_ceiling of_int_le_iff order_trans)
    with False show ?thesis by simp
  qed
  moreover have "(if 0 \<le> x then \<lfloor>x\<rfloor> else \<lceil>x\<rceil>) < 2 ^ 63"
  proof (cases "0 \<le> x")
    case True
    have "x < of_int (2 ^ 63)" using assms by simp
    then have "\<lfloor>x\<rfloor> < 2 ^ 63" by (simp only: floor_less_iff)
    with True show ?thesis by simp
  next
    case False
    then have "\<lceil>x\<rceil> \<le> 0" by (simp add: ceiling_le_iff)
    with False show ?thesis by simp
  qed
  ultimately show ?thesis by (simp add: float64_to_int_def Let_def)
qed

text \<open>
  The depth of recall on every implementation.  A depth that is absent, or not a number,
  counts as 5.  A depth that is a number is always brought into the interval from 1 to 20;
  when its integer part fits a 64-bit int (Go leaves the conversion of larger numbers to the
  implementation) a value below 1 becomes 1, a value above 20 becomes 20, and a value in
  between is cut to its integer part.  The result is the number of neighbours the search
  asks for.
\<close>

theorem recall_depth_clamped:
  "(args ''depth'' = Some (NumberArg x) \<longrightarrow>
      1 \<le> recallDepth impl args \<and> recallDepth impl args \<le> 20
      \<and> (- (2 ^ 63) < x \<and> x < 2 ^ 63 \<longrightarrow>
           recallDepth impl args = (if x < 1 then 1 else if 20 < x then 20 else \<lfloor>x\<rfloor>)))
   \<and> (args ''depth'' = None \<longrightarrow> recallDepth impl args = 5)
   \<and> searchLimit (recallDepth impl args) = recallDepth impl args"
proof (intro conjI impI)
  assume a: "args ''depth'' = Some (NumberArg x)"
  then show "1 \<le> recallDepth impl args" "recallDepth impl args \<le> 20"
    by (simp_all add: recallDepth_def)
  assume r: "- (2 ^ 63) < x \<and> x < 2 ^ 63"
  then have t: "float64_to_int impl x = (if 0 \<le> x then \<lfloor>x\<rfloor> else \<lceil>x\<rceil>)"
    by (simp add: float64_to_int_in_range)
  show "recallDepth impl args = (if x < 1 then 1 else if 20 < x then 20 else \<lfloor>x\<rfloor>)"
  proof (cases "x < 1")
    case True
    then have "(if 0 \<le> x then \<lfloor>x\<rfloor> else \<lceil>x\<rceil>) \<le> 0"
      by (auto simp: floor_le_iff ceiling_le_iff)
    with a t True show ?thesis by (simp add: recallDepth_def)
  next
    case False
    then have f: "1 \<le> \<lfloor>x\<rfloor>" by (simp add: le_floor_iff)
    show ?thesis
    proof (cases "20 < x")
      case True
      then have "20 \<le> \<lfloor>x\<rfloor>" by (simp add: le_floor_iff)
      with a t False True show ?thesis by (simp add: recallDepth_def)
    next
      case c: False
      then have "\<lfloor>x\<rfloor> \<le> 20" by (simp add: floor_le_iff)
      with a t False c f show ?thesis by (simp add: recallDepth_def)
    qed
  qed
next
  assume "args ''depth'' = None"
  then show "recallDepth impl args = 5" by (simp add: recallDepth_def)
next
  have "1 \<le> recallDepth impl args"
    by (simp add: recallDepth_def split: option.splits arg.splits)
  then show "searchLimit (recallDepth impl args) = recallDepth impl args"
    by (simp add: searchLimit_def)
qed


theorem recall_depth_clamped_witness:
  "[''depth'' \<mapsto> NumberArg 25] ''depth'' = Some (NumberArg 25)
   \<and> - (2 ^ 63) < (25 :: rat) \<and> (25 :: rat) < 2 ^ 63
   \<and> recallDepth (\<lambda>x. 0) [''depth'' \<mapsto> NumberArg 25] = 20
   \<and> recallDepth (\<lambda>x. 0) [''depth'' \<mapsto> NumberArg (- 3)] = 1
   \<and> recallDepth (\<lambda>x. 0) [''depth'' \<mapsto> NumberArg (15 / 2)] = 7
   \<and> recallDepth (\<lambda>x. 0) [''depth'' \<mapsto> StringArg ''7''] = 5
   \<and> Map.empty ''depth'' = (None :: arg option)
   \<and> recallDepth (\<lambda>x. 0) Map.empty = 5"
proof -
  have f: "\<lfloor>15 / 2 :: rat\<rfloor> = 7" by (rule floor_unique) simp_all
  have ev: ?thesis
    by (simp add: recallDepth_def float64_to_int_def Let_def f)
  show ?thesis
    using recall_depth_clamped [where args = "[''depth'' \<mapsto> NumberArg 25]" and x = 25 and impl = "\<lambda>x. 0"]
      recall_depth_clamped [where args = "Map.empty" and x = 25 and impl = "\<lambda>x. 0"]
    by (rule_tac ev)
qed

definition amd64_int :: "rat \<Rightarrow> int" where
  \<comment> \<open>What Go gives on amd64 for \<^verbatim>\<open>int(x)\<close> when \<open>x\<close> does not fit: the instruction
      \<^verbatim>\<open>CVTTSD2SQ\<close> answers every such \<open>x\<close> with the "integer indefinite" value, \<open>-2^63\<close>.\<close>
  "amd64_int x = - (2 ^ 63)"

text \<open>
  Claim C8 (the depth of recall is clamped to the interval from 1 to 20).  The number is
  converted to an int before it is clamped, and the conversion of a number that does not
  fit a 64-bit int is left to the implementation.  On amd64 a depth of \<^verbatim>\<open>1e19\<close>, which is
  above 20, is converted to \<open>-2^63\<close> and then clamped to 1, not to 20.
\<close>

theorem recall_depth_above_range_is_1:
  "(20 :: rat) < 10 ^ 19 \<and> recallDepth amd64_int [''depth'' \<mapsto> NumberArg (10 ^ 19)] = 1"
proof -
  have "\<lfloor>10 ^ 19 :: rat\<rfloor> = 10 ^ 19" by (rule floor_unique) simp_all
  then show ?thesis
    by (simp add: recallDepth_def float64_to_int_def amd64_int_def Let_def)
qed

lemma GetDocument_missing:
  "documents s k = None \<Longrightarrow> ignoring_error (GetDocument e s k) = (tick s, None)"
  by (simp add: GetDocument_def ignoring_error_def)

lemma deleteChunks_ge: "deleted \<le> snd (deleteChunks e s id' i deleted)"
proof (induction e s id' i deleted rule: deleteChunks.induct)
  case (1 e s id' i deleted)
  show ?case
  proof (cases "i < 10000")
    case False
    then show ?thesis by (simp add: deleteChunks.simps [of e s id' i deleted])
  next
    case True
    obtain s1 d where g: "ignoring_error (GetDocument e s (chunkID id' i)) = (s1, d)"
      by (cases "ignoring_error (GetDocument e s (chunkID id' i))")
    show ?thesis
    proof (cases d)
      case None
      with True g show ?thesis by (simp add: deleteChunks.simps [of e s id' i deleted])
    next
      case (Some doc)
      with "1.IH" [OF True g [symmetric] Some] True g
      show ?thesis by (simp add: deleteChunks.simps [of e s id' i deleted])
    qed
  qed
qed

lemma DeleteDocumentAndChunks_nothing:
  assumes "documents s id' = None" "documents s (id' @ ''_chunk_0'') = None"
  shows "DeleteDocumentAndChunks e s id' = (tick (tick s), 0)"
proof -
  from assms(2) have "documents (tick s) (chunkID id' 0) = None" by (simp add: chunkID_0)
  then have "deleteChunks e (tick s) id' 0 0 = (tick (tick s), 0)"
    by (simp add: deleteChunks.simps [of e "tick s" id' 0 0] GetDocument_missing)
  with assms(1) show ?thesis by (simp add: DeleteDocumentAndChunks_def GetDocument_missing)
qed

lemma DeleteDocumentAndChunks_nonneg: "0 \<le> snd (DeleteDocumentAndChunks e s id')"
proof (cases "ignoring_error (GetDocument e s id')")
  case (Pair s1 d)
  show ?thesis
  proof (cases d)
    case None
    with Pair deleteChunks_ge [of 0 e s1 id' 0] show ?thesis
      by (simp add: DeleteDocumentAndChunks_def)
  next
    case (Some doc)
    with Pair deleteChunks_ge [of 1 e "fst (DeleteDocument e s1 id')" id' 0] show ?thesis
      by (simp add: DeleteDocumentAndChunks_def)
  qed
qed

text \<open>
  Claim C9 (delete_document on an unknown id).  When the store holds neither a document of
  the id nor its chunk 0, the tool answers with an error (\<open>document not found\<close> and the
  id; \<open>id is required\<close> for the empty id) and the tables stay as they are, whichever
  database calls fail; a successful answer always reports at least one deleted row.  The
  store's own \<open>DeleteDocument\<close> for an id without a row succeeds when no database call
  fails.
\<close>

theorem delete_document_not_found:
  "(args ''id'' = Some (StringArg id') \<and> documents s id' = None \<and> documents s (id' @ ''_chunk_0'') = None
      \<longrightarrow> snd (handleDeleteDocument e s args) =
             ToolResultError (if id' = [] then ''id is required'' else ''document not found: '' @ id')
          \<and> documents (fst (handleDeleteDocument e s args)) = documents s
          \<and> documents_vec (fst (handleDeleteDocument e s args)) = documents_vec s)
   \<and> (\<forall>p. snd (handleDeleteDocument e s args) = ToolResultText p
          \<longrightarrow> (\<exists>n. 0 < n \<and> map_of p ''deleted_count'' = Some (JInt n)))
   \<and> (documents s id' = None \<and> \<not> fails e (stmts s) \<and> \<not> fails e (stmts s + 1)
        \<and> \<not> fails e (stmts s + 2) \<and> \<not> fails e (stmts s + 3)
      \<longrightarrow> snd (DeleteDocument e s id') = Inr () \<and> documents (fst (DeleteDocument e s id')) = documents s)"
proof (intro conjI impI allI)
  assume a: "args ''id'' = Some (StringArg id') \<and> documents s id' = None \<and> documents s (id' @ ''_chunk_0'') = None"
  then have d: "DeleteDocumentAndChunks e s id' = (tick (tick s), 0)"
    by (simp add: DeleteDocumentAndChunks_nothing)
  from a d show "snd (handleDeleteDocument e s args) =
             ToolResultError (if id' = [] then ''id is required'' else ''document not found: '' @ id')"
    by (simp add: handleDeleteDocument_def)
  from a d show "documents (fst (handleDeleteDocument e s args)) = documents s"
    by (simp add: handleDeleteDocument_def)
  from a d show "documents_vec (fst (handleDeleteDocument e s args)) = documents_vec s"
    by (simp add: handleDeleteDocument_def)
next
  fix p
  assume t: "snd (handleDeleteDocument e s args) = ToolResultText p"
  then obtain i where i: "args ''id'' = Some (StringArg i)" "i \<noteq> []"
    by (auto simp: handleDeleteDocument_def split: option.splits arg.splits if_splits)
  obtain s1 n where dd: "DeleteDocumentAndChunks e s i = (s1, n)"
    by (cases "DeleteDocumentAndChunks e s i")
  with DeleteDocumentAndChunks_nonneg [of e s i] have "0 \<le> n" by simp
  with t i dd have "0 < n \<and> map_of p ''deleted_count'' = Some (JInt n)"
    by (auto simp: handleDeleteDocument_def split: if_splits)
  then show "\<exists>n. 0 < n \<and> map_of p ''deleted_count'' = Some (JInt n)" by blast
next
  assume a: "documents s id' = None \<and> \<not> fails e (stmts s) \<and> \<not> fails e (stmts s + 1)
        \<and> \<not> fails e (stmts s + 2) \<and> \<not> fails e (stmts s + 3)"
  then show "snd (DeleteDocument e s id') = Inr ()"
    by (simp add: DeleteDocument_def Let_def eval_nat_numeral)
  from a show "documents (fst (DeleteDocument e s id')) = documents s"
    by (auto simp: DeleteDocument_def Let_def eval_nat_numeral)
qed

lemma deleteChunks_missing:
  "documents s (chunkID id' i) = None \<Longrightarrow> deleteChunks e s id' i deleted = (tick s, deleted) \<or> \<not> i < 10000"
  by (simp add: deleteChunks.simps [of e s id' i deleted] GetDocument_missing)

definition one_doc :: store where
  "one_doc = fst (AddDocument calm (New_store 3) ''doc'' ''some text'' None [0, 0, 0])"

lemma one_doc_eq:
  "one_doc = \<lparr>documents = [''doc'' \<mapsto> \<lparr>content = ''some text'', metadata = None, created_at = 1\<rparr>],
              documents_vec = [''doc'' \<mapsto> [0, 0, 0]], jobs = [], dimensions = 3, stmts = 4\<rparr>"
  by (simp add: one_doc_def AddDocument_def calm_def New_store_def tick_def rollback_def
      vec0_accepts_def unsupportedFloat_def Let_def)

lemma delete_one_doc: "snd (DeleteDocumentAndChunks calm one_doc ''doc'') = 1"
proof -
  have g: "ignoring_error (GetDocument calm one_doc ''doc'')
            = (tick one_doc, Some \<lparr>ID = ''doc'', Content = ''some text'', Metadata = None, CreatedAt = 1\<rparr>)"
    by (simp add: GetDocument_def ignoring_error_def one_doc_eq calm_def tick_def)
  have d: "documents (fst (DeleteDocument calm (tick one_doc) ''doc'')) (chunkID ''doc'' 0) = None"
    by (simp add: DeleteDocument_def one_doc_eq calm_def tick_def rollback_def Let_def chunkID_0)
  from deleteChunks_missing [OF d, of calm 1]
  have "deleteChunks calm (fst (DeleteDocument calm (tick one_doc) ''doc'')) ''doc'' 0 1
          = (tick (fst (DeleteDocument calm (tick one_doc) ''doc'')), 1)"
    by simp
  with g show ?thesis by (simp add: DeleteDocumentAndChunks_def)
qed

theorem delete_document_not_found_witness:
  "[''id'' \<mapsto> StringArg ''nope''] ''id'' = Some (StringArg ''nope'')
   \<and> documents (New_store 3) ''nope'' = None
   \<and> documents (New_store 3) (''nope'' @ ''_chunk_0'') = None
   \<and> snd (handleDeleteDocument calm (New_store 3) [''id'' \<mapsto> StringArg ''nope''])
       = ToolResultError ''document not found: nope''
   \<and> \<not> fails calm (stmts (New_store 3)) \<and> \<not> fails calm (stmts (New_store 3) + 1)
   \<and> \<not> fails calm (stmts (New_store 3) + 2) \<and> \<not> fails calm (stmts (New_store 3) + 3)
   \<and> snd (DeleteDocument calm (New_store 3) ''nope'') = Inr ()
   \<and> snd (handleDeleteDocument calm one_doc [''id'' \<mapsto> StringArg ''doc''])
       = ToolResultText [(''deleted_count'', JInt 1), (''id'', JString ''doc''),
            (''message'', JString (statusEmoji @ '' Deleted 1 document(s)/chunk(s) for: doc'')),
            (''success'', JBool True)]"
proof -
  have a: "DeleteDocumentAndChunks calm (New_store 3) ''nope'' = (tick (tick (New_store 3)), 0)"
    by (rule DeleteDocumentAndChunks_nothing) (simp_all add: New_store_def)
  have b: "snd (DeleteDocument calm (New_store 3) ''nope'') = Inr ()"
    by (simp add: DeleteDocument_def calm_def New_store_def tick_def Let_def)
  have i1: "itoa (Suc 0) = ''1''" by (subst itoa.simps) simp
  have c: "snd (handleDeleteDocument calm one_doc [''id'' \<mapsto> StringArg ''doc''])
       = ToolResultText [(''deleted_count'', JInt 1), (''id'', JString ''doc''),
            (''message'', JString (statusEmoji @ '' Deleted 1 document(s)/chunk(s) for: doc'')),
            (''success'', JBool True)]"
    using delete_one_doc
    by (cases "DeleteDocumentAndChunks calm one_doc ''doc''")
      (simp add: handleDeleteDocument_def fmt_d_def i1)
  have ev: ?thesis
    using b c by (simp add: handleDeleteDocument_def a) (simp add: calm_def New_store_def)
  show ?thesis
    using delete_document_not_found [where args = "[''id'' \<mapsto> StringArg ''nope'']" and id' = "''nope''"
        and s = "New_store 3" and e = calm]
    by (rule_tac ev)
qed

lemma newChunkMeta_frame:
  "fresh (fst (newChunkMeta h md id' i n)) = fresh h + 1"
  "snd (newChunkMeta h md id' i n) = fresh h"
  "a \<noteq> fresh h \<Longrightarrow> cells (fst (newChunkMeta h md id' i n)) a = cells h a"
  by (simp_all add: newChunkMeta_def make_map_def maps_Copy_def assign_def contents_def Let_def
      split: option.splits)

lemma newChunkMeta_contents:
  assumes "\<forall>a. md = Some a \<longrightarrow> a < fresh h"
  shows "cells (fst (newChunkMeta h md id' i n)) (fresh h) =
     Some ((case contents h md of None \<Rightarrow> Map.empty | Some m \<Rightarrow> m)
            (''parent_id'' \<mapsto> id', ''chunk_index'' \<mapsto> itoa i, ''total_chunks'' \<mapsto> itoa n))"
  using assms
  by (auto simp: newChunkMeta_def make_map_def maps_Copy_def assign_def contents_def Let_def
      split: option.splits)

lemma storeChunks_frame:
  "fresh h \<le> fresh (fst (fst (storeChunks e h s md id' n i chunks)))
   \<and> (\<forall>a < fresh h. cells (fst (fst (storeChunks e h s md id' n i chunks))) a = cells h a)"
proof (induction chunks arbitrary: h s i)
  case Nil
  show ?case by simp
next
  case (Cons chunk rest)
  obtain h1 cm where n: "newChunkMeta h md id' i n = (h1, cm)" by (cases "newChunkMeta h md id' i n")
  with newChunkMeta_frame [where h = h and md = md and id' = id' and i = i and n = n]
  have f: "fresh h1 = fresh h + 1" and c: "\<forall>a < fresh h. cells h1 a = cells h a" by auto
  show ?case
  proof (cases "Embed e chunk")
    case (Inl err)
    with n f c show ?thesis by simp
  next
    case (Inr embedding)
    obtain s1 res where ad: "AddDocument e s (chunkID id' i) chunk (contents h1 (Some cm)) embedding = (s1, res)"
      by (cases "AddDocument e s (chunkID id' i) chunk (contents h1 (Some cm)) embedding")
    show ?thesis
    proof (cases res)
      case (Inl err)
      with n Inr ad f c show ?thesis by simp
    next
      case r: (Inr u)
      from Cons.IH [where h = h1 and s = s1 and i = "i + 1"] f c
      have "fresh h \<le> fresh (fst (fst (storeChunks e h1 s1 md id' n (i + 1) rest)))
            \<and> (\<forall>a < fresh h. cells (fst (fst (storeChunks e h1 s1 md id' n (i + 1) rest))) a = cells h a)"
        by auto
      with n Inr ad r show ?thesis by simp
    qed
  qed
qed

lemma Index_heap:
  "fst (fst (Index e r h s c md id0)) =
     (if c \<noteq> [] \<and> \<not> int (length c) \<le> chunkSize r
      then (case chunkText r c of
              Inl p \<Rightarrow> h
            | Inr chunks \<Rightarrow>
                fst (fst (storeChunks e h s md (if id0 = [] then uuid e (stmts s) else id0)
                            (length chunks) 0 chunks)))
      else h)"
  by (simp add: Index_def Let_def split: sum.splits prod.splits)

lemma Index_frame:
  "fresh h \<le> fresh (fst (fst (Index e r h s c md id0)))
   \<and> (\<forall>a < fresh h. cells (fst (fst (Index e r h s c md id0))) a = cells h a)"
  unfolding Index_heap using storeChunks_frame by (simp split: sum.splits)

lemma digit_inj:
  assumes "n < 10" "m < 10" "''0123456789'' ! n = ''0123456789'' ! m"
  shows "n = m"
proof -
  have "distinct ''0123456789''" by simp
  moreover have "n < length ''0123456789''" "m < length ''0123456789''" using assms by simp_all
  ultimately show ?thesis using assms(3) by (simp only: nth_eq_iff_index_eq)
qed

lemma itoa_length: "10 \<le> n \<Longrightarrow> 2 \<le> length (itoa n)"
proof -
  assume a: "10 \<le> n"
  then have "itoa n = itoa (n div 10) @ [''0123456789'' ! (n mod 10)]"
    by (simp add: itoa.simps [of n])
  with itoa_nonempty [of "n div 10"] show ?thesis
    by (cases "itoa (n div 10)") simp_all
qed

lemma itoa_inj: "itoa n = itoa m \<Longrightarrow> n = m"
proof (induction n arbitrary: m rule: less_induct)
  case (less n)
  show ?case
  proof (cases "n < 10")
    case True
    show ?thesis
    proof (cases "m < 10")
      case m: True
      with True less.prems show ?thesis
        by (auto simp: itoa.simps [of n] itoa.simps [of m] intro: digit_inj)
    next
      case False
      then have "2 \<le> length (itoa m)" by (simp add: itoa_length)
      moreover from True have "length (itoa n) = 1" by (simp add: itoa.simps [of n])
      ultimately show ?thesis using less.prems by simp
    qed
  next
    case False
    show ?thesis
    proof (cases "m < 10")
      case True
      then have "length (itoa m) = 1" by (simp add: itoa.simps [of m])
      moreover from False have "2 \<le> length (itoa n)" by (simp add: itoa_length)
      ultimately show ?thesis using less.prems by simp
    next
      case m: False
      from False have n: "itoa n = itoa (n div 10) @ [''0123456789'' ! (n mod 10)]"
        by (simp add: itoa.simps [of n])
      from m have "itoa m = itoa (m div 10) @ [''0123456789'' ! (m mod 10)]"
        by (simp add: itoa.simps [of m])
      with n less.prems have e: "itoa (n div 10) = itoa (m div 10)"
        and d: "''0123456789'' ! (n mod 10) = ''0123456789'' ! (m mod 10)" by simp_all
      from False have "n div 10 < n" by simp
      from less.IH [OF this e] have "n div 10 = m div 10" .
      moreover from d have "n mod 10 = m mod 10" by (intro digit_inj) simp_all
      ultimately show ?thesis by (metis div_mult_mod_eq)
    qed
  qed
qed

lemma chunkID_inj: "chunkID id' i = chunkID id' j \<longleftrightarrow> i = j"
  by (auto simp: chunkID_def dest: itoa_inj)

definition chunkMetadata :: "(string \<rightharpoonup> string) option \<Rightarrow> string \<Rightarrow> nat \<Rightarrow> nat \<Rightarrow> (string \<rightharpoonup> string)" where
  \<comment> \<open>The caller's entries and the three reserved entries of chunk \<open>i\<close> of \<open>n\<close>.\<close>
  "chunkMetadata caller id' i n =
     (case caller of None \<Rightarrow> Map.empty | Some m \<Rightarrow> m)
       (''parent_id'' \<mapsto> id', ''chunk_index'' \<mapsto> itoa i, ''total_chunks'' \<mapsto> itoa n)"

lemma storeChunks_other:
  "\<forall>j \<ge> i. chunkID id' j \<noteq> k \<Longrightarrow>
     documents (snd (fst (storeChunks e h s md id' n i chunks))) k = documents s k"
proof (induction chunks arbitrary: h s i)
  case Nil
  show ?case by simp
next
  case (Cons chunk rest)
  obtain h1 cm where n: "newChunkMeta h md id' i n = (h1, cm)" by (cases "newChunkMeta h md id' i n")
  show ?case
  proof (cases "Embed e chunk")
    case (Inl err)
    with n show ?thesis by simp
  next
    case (Inr embedding)
    obtain s1 res where ad: "AddDocument e s (chunkID id' i) chunk (contents h1 (Some cm)) embedding = (s1, res)"
      by (cases "AddDocument e s (chunkID id' i) chunk (contents h1 (Some cm)) embedding")
    from Cons.prems have ne: "chunkID id' i \<noteq> k" by simp
    from AddDocument_outcome [where e = e and s = s and id' = "chunkID id' i" and c = chunk
        and md = "contents h1 (Some cm)" and embedding = embedding] ad ne
    have s1: "documents s1 k = documents s k" by (cases res) auto
    show ?thesis
    proof (cases res)
      case (Inl err)
      with n Inr ad s1 show ?thesis by simp
    next
      case r: (Inr u)
      from Cons.prems have "\<forall>j \<ge> i + 1. chunkID id' j \<noteq> k" by simp
      from Cons.IH [OF this, where h = h1 and s = s1] s1 n Inr ad r show ?thesis by simp
    qed
  qed
qed

lemma storeChunks_stored:
  "storeChunks e h s md id' n i chunks = ((h', s'), Inr ()) \<Longrightarrow> \<forall>a. md = Some a \<longrightarrow> a < fresh h \<Longrightarrow>
     j < length chunks \<Longrightarrow>
     \<exists>row. documents s' (chunkID id' (i + j)) = Some row \<and> content row = chunks ! j
          \<and> metadata row = Some (chunkMetadata (contents h md) id' (i + j) n)"
proof (induction chunks arbitrary: h s i j)
  case Nil
  then show ?case by simp
next
  case (Cons chunk rest)
  obtain h1 cm where n: "newChunkMeta h md id' i n = (h1, cm)" by (cases "newChunkMeta h md id' i n")
  with newChunkMeta_frame [where h = h and md = md and id' = id' and i = i and n = n]
  have f: "fresh h1 = fresh h + 1" and cm: "cm = fresh h" and c: "\<forall>a < fresh h. cells h1 a = cells h a"
    by auto
  from newChunkMeta_contents [OF Cons.prems(2), where id' = id' and i = i and n = n] n cm
  have cont: "contents h1 (Some cm) = Some (chunkMetadata (contents h md) id' i n)"
    by (simp add: contents_def chunkMetadata_def)
  from c Cons.prems(2) have same: "contents h1 md = contents h md"
    by (cases md) (simp_all add: contents_def)
  from f Cons.prems(2) have alloc: "\<forall>a. md = Some a \<longrightarrow> a < fresh h1" by auto
  from Cons.prems(1) n obtain embedding where em: "Embed e chunk = Inr embedding"
    by (cases "Embed e chunk") auto
  obtain s1 res where ad: "AddDocument e s (chunkID id' i) chunk (contents h1 (Some cm)) embedding = (s1, res)"
    by (cases "AddDocument e s (chunkID id' i) chunk (contents h1 (Some cm)) embedding")
  with Cons.prems(1) n em have r: "res = Inr ()" by (cases res) auto
  from Cons.prems(1) n em ad r
  have rest: "storeChunks e h1 s1 md id' n (i + 1) rest = ((h', s'), Inr ())" by simp
  from AddDocument_outcome [where e = e and s = s and id' = "chunkID id' i" and c = chunk
      and md = "contents h1 (Some cm)" and embedding = embedding] ad r cont
  have row: "documents s1 (chunkID id' i) =
      Some \<lparr>content = chunk, metadata = Some (chunkMetadata (contents h md) id' i n),
            created_at = clock e (stmts s + 1)\<rparr>"
    by simp
  show ?case
  proof (cases j)
    case 0
    have "\<forall>j \<ge> i + 1. chunkID id' j \<noteq> chunkID id' i" by (simp add: chunkID_inj)
    from storeChunks_other [OF this, where e = e and h = h1 and s = s1 and md = md and n = n and chunks = rest]
      rest
    have "documents s' (chunkID id' i) = documents s1 (chunkID id' i)" by simp
    with row 0 show ?thesis by simp
  next
    case (Suc j')
    with Cons.prems(3) have "j' < length rest" by simp
    from Cons.IH [OF rest alloc this] same Suc show ?thesis by simp
  qed
qed

text \<open>
  Claim C10 (Index does not touch the caller's metadata).  \<open>Index\<close> changes no map that
  existed before the call, so the caller's metadata map holds after the call what it held
  before; the maps it makes are new ones.  When the content is longer than the chunk size
  and \<open>Index\<close> succeeds, chunk \<open>i\<close> is stored under the id \<open>id_chunk_i\<close> with a metadata map
  of its own: the caller's entries and \<open>parent_id\<close>, \<open>chunk_index\<close>, \<open>total_chunks\<close>.
\<close>

theorem Index_leaves_caller_metadata:
  "(\<forall>a < fresh h. cells (fst (fst (Index e r h s c md id0))) a = cells h a)
   \<and> fresh h \<le> fresh (fst (fst (Index e r h s c md id0)))
   \<and> (chunkSize r < int (length c) \<and> (\<forall>a. md = Some a \<longrightarrow> a < fresh h) \<longrightarrow>
        contents (fst (fst (Index e r h s c md id0))) md = contents h md
        \<and> (\<forall>res chunks i. snd (Index e r h s c md id0) = Ok res \<and> chunkText r c = Inr chunks
               \<and> i < length chunks \<longrightarrow>
             (\<exists>row. documents (snd (fst (Index e r h s c md id0))) (chunkID (ResultID res) i) = Some row
                \<and> content row = chunks ! i
                \<and> metadata row = Some (chunkMetadata (contents h md) (ResultID res) i (length chunks)))))"
proof (intro conjI impI allI)
  show "fresh h \<le> fresh (fst (fst (Index e r h s c md id0)))" using Index_frame by blast
  fix a
  assume "a < fresh h"
  then show "cells (fst (fst (Index e r h s c md id0))) a = cells h a" using Index_frame by blast
next
  assume a: "chunkSize r < int (length c) \<and> (\<forall>a. md = Some a \<longrightarrow> a < fresh h)"
  with Index_frame [where h = h and e = e and r = r and s = s and c = c and md = md and ?id0.0 = id0]
  show "contents (fst (fst (Index e r h s c md id0))) md = contents h md"
    by (cases md) (simp_all add: contents_def)
next
  fix res chunks i
  assume a: "chunkSize r < int (length c) \<and> (\<forall>a. md = Some a \<longrightarrow> a < fresh h)"
    and b: "snd (Index e r h s c md id0) = Ok res \<and> chunkText r c = Inr chunks \<and> i < length chunks"
  define id' where "id' = (if id0 = [] then uuid e (stmts s) else id0)"
  from b have "c \<noteq> []" by (auto simp: Index_def)
  with a have ne: "c \<noteq> []" "\<not> int (length c) \<le> chunkSize r" by auto
  obtain h' s' sr where sc: "storeChunks e h s md id' (length chunks) 0 chunks = ((h', s'), sr)"
    by (cases "storeChunks e h s md id' (length chunks) 0 chunks") auto
  from ne b sc have ix: "Index e r h s c md id0 =
      ((h', s'), case sr of Inl err \<Rightarrow> Err err
                  | Inr u \<Rightarrow> Ok \<lparr>ResultID = id', ChunkCount = int (length chunks)\<rparr>)"
    by (simp add: Index_def Let_def id'_def split: sum.splits)
  with b have sr: "sr = Inr ()" and res: "ResultID res = id'" by (cases sr; auto)+
  from storeChunks_stored [OF sc [unfolded sr], where j = i] a b
  have "\<exists>row. documents s' (chunkID id' i) = Some row \<and> content row = chunks ! i
          \<and> metadata row = Some (chunkMetadata (contents h md) id' i (length chunks))"
    by simp
  with ix res show "\<exists>row. documents (snd (fst (Index e r h s c md id0))) (chunkID (ResultID res) i) = Some row
                \<and> content row = chunks ! i
                \<and> metadata row = Some (chunkMetadata (contents h md) (ResultID res) i (length chunks))"
    by simp
qed

definition small_chunks :: Goldie where
  "small_chunks = \<lparr>chunkSize = 4, chunkOverlap = 1\<rparr>"

definition caller_heap :: heap where
  \<comment> \<open>A heap with one map, which the caller passes as metadata.\<close>
  "caller_heap = \<lparr>cells = [0 \<mapsto> [''k'' \<mapsto> ''v'']], fresh = 1\<rparr>"

lemma chunkText_abcdefg: "chunkText small_chunks ''abcdefg'' = Inr [''abcd'', ''defg'', ''g'']"
  by (simp add: chunkText_def small_chunks_def chunkLoop.simps chunkEnd_def nextStart_def slice_def
      wrap64_def go_div_def TrimSpace_def spaceRunes_def stripRunes.simps Let_def)

lemma Index_abcdefg_result:
  "snd (Index calm small_chunks caller_heap (New_store 3) ''abcdefg'' (Some 0) ''doc'')
     = Ok \<lparr>ResultID = ''doc'', ChunkCount = 3\<rparr>"
  by code_simp


theorem Index_leaves_caller_metadata_witness:
  "chunkSize small_chunks < int (length ''abcdefg'')
   \<and> 0 < fresh caller_heap
   \<and> snd (Index calm small_chunks caller_heap (New_store 3) ''abcdefg'' (Some 0) ''doc'')
        = Ok \<lparr>ResultID = ''doc'', ChunkCount = 3\<rparr>
   \<and> chunkText small_chunks ''abcdefg'' = Inr [''abcd'', ''defg'', ''g'']
   \<and> cells (fst (fst (Index calm small_chunks caller_heap (New_store 3) ''abcdefg'' (Some 0) ''doc''))) 0
        = Some [''k'' \<mapsto> ''v'']
   \<and> (\<exists>row. documents (snd (fst (Index calm small_chunks caller_heap (New_store 3) ''abcdefg'' (Some 0) ''doc'')))
                ''doc_chunk_1'' = Some row
          \<and> content row = ''defg''
          \<and> metadata row = Some [''k'' \<mapsto> ''v'', ''parent_id'' \<mapsto> ''doc'', ''chunk_index'' \<mapsto> ''1'',
                                  ''total_chunks'' \<mapsto> ''3''])"
proof -
  let ?ix = "Index calm small_chunks caller_heap (New_store 3) ''abcdefg'' (Some 0) ''doc''"
  note t = Index_leaves_caller_metadata [where e = calm and r = small_chunks and h = caller_heap
      and s = "New_store 3" and c = "''abcdefg''" and md = "Some 0" and ?id0.0 = "''doc''"]
  have h1: "chunkSize small_chunks < int (length ''abcdefg'')" by (simp add: small_chunks_def)
  have h2: "0 < fresh caller_heap" by (simp add: caller_heap_def)
  from t h2 have "cells (fst (fst ?ix)) 0 = cells caller_heap 0" by blast
  then have frame: "cells (fst (fst ?ix)) 0 = Some [''k'' \<mapsto> ''v'']" by (simp add: caller_heap_def)
  from t h1 h2 have "\<forall>res chunks i. snd ?ix = Ok res \<and> chunkText small_chunks ''abcdefg'' = Inr chunks
               \<and> i < length chunks \<longrightarrow>
             (\<exists>row. documents (snd (fst ?ix)) (chunkID (ResultID res) i) = Some row
                \<and> content row = chunks ! i
                \<and> metadata row = Some (chunkMetadata (contents caller_heap (Some 0)) (ResultID res) i (length chunks)))"
    by simp
  with Index_abcdefg_result chunkText_abcdefg
  have "\<exists>row. documents (snd (fst ?ix)) (chunkID ''doc'' 1) = Some row
                \<and> content row = [''abcd'', ''defg'', ''g''] ! 1
                \<and> metadata row = Some (chunkMetadata (contents caller_heap (Some 0)) ''doc'' 1 3)"
    by (elim allE [where x = "\<lparr>ResultID = ''doc'', ChunkCount = 3\<rparr>"]
          allE [where x = "[''abcd'', ''defg'', ''g'']"] allE [where x = 1]) (simp add: numeral_3_eq_3)
  moreover have i1: "itoa 1 = ''1''" by (subst itoa.simps) simp
  moreover have i3: "itoa 3 = ''3''" by (subst itoa.simps) simp
  moreover have "chunkID ''doc'' 1 = ''doc_chunk_1''" unfolding chunkID_def i1 by simp
  moreover have "chunkMetadata (contents caller_heap (Some 0)) ''doc'' 1 3
      = [''k'' \<mapsto> ''v'', ''parent_id'' \<mapsto> ''doc'', ''chunk_index'' \<mapsto> itoa 1, ''total_chunks'' \<mapsto> itoa 3]"
    by (simp add: chunkMetadata_def contents_def caller_heap_def)
  ultimately have stored: "\<exists>row. documents (snd (fst ?ix)) ''doc_chunk_1'' = Some row
          \<and> content row = ''defg''
          \<and> metadata row = Some [''k'' \<mapsto> ''v'', ''parent_id'' \<mapsto> ''doc'', ''chunk_index'' \<mapsto> ''1'',
                                  ''total_chunks'' \<mapsto> ''3'']"
    by simp
  from h1 h2 Index_abcdefg_result chunkText_abcdefg frame stored show ?thesis by (intro conjI)
qed

lemma Base_nonempty: "Base path \<noteq> []"
proof (cases "path = []")
  case True
  then show ?thesis by (simp add: Base_def)
next
  case False
  show ?thesis by (simp add: Base_def Let_def)
qed

definition same_tables :: "store \<Rightarrow> store \<Rightarrow> bool" where
  "same_tables s s' = (documents s' = documents s \<and> documents_vec s' = documents_vec s \<and> jobs s' = jobs s)"

lemma same_tables_tick [simp]: "same_tables s (tick s)" "same_tables s (tick (tick s))"
  by (simp_all add: same_tables_def)

lemma GetDocument_read:
  "ignoring_error (GetDocument e s k) =
     (tick s, if fails e (stmts s) then None
              else (case documents s k of
                      None \<Rightarrow> None
                    | Some row \<Rightarrow> Some \<lparr>ID = k, Content = content row, Metadata = metadata row,
                                         CreatedAt = created_at row\<rparr>))"
  by (simp add: GetDocument_def ignoring_error_def)

definition row_has_checksum :: "store \<Rightarrow> string \<Rightarrow> string \<Rightarrow> bool" where
  \<comment> \<open>The store holds a document of this id whose metadata gives this checksum.\<close>
  "row_has_checksum s k checksum =
     (case documents s k of
        None \<Rightarrow> False
      | Some row \<Rightarrow> (case metadata row of None \<Rightarrow> False | Some m \<Rightarrow> m ''checksum'' = Some checksum))"

lemma checksum_matches_read:
  "row_has_checksum s k checksum \<Longrightarrow> \<not> fails e (stmts s) \<Longrightarrow>
     checksum_matches (snd (ignoring_error (GetDocument e s k))) checksum"
  by (auto simp: GetDocument_read row_has_checksum_def checksum_matches_def index_map_def
      split: option.splits)

definition fileMetadata :: "heap \<Rightarrow> string \<Rightarrow> string \<Rightarrow> heap" where
  \<comment> \<open>The heap after \<open>IndexFile\<close> has made its metadata map, at the address \<open>fresh h\<close>.\<close>
  "fileMetadata h path checksum =
     assign (assign (assign (fst (make_map h)) (fresh h) ''source'' path)
               (fresh h) ''filename'' (Base path))
       (fresh h) ''checksum'' checksum"

lemma IndexFile_unfold:
  assumes "ReadFile e path = Inr c"
  shows "IndexFile e r h s path =
     (if checksum_matches (snd (ignoring_error (GetDocument e s (Base path)))) (sha256hex e c)
      then ((h, tick s), Ok \<lparr>ResultID = Base path, ChunkCount = 0\<rparr>)
      else if checksum_matches (snd (ignoring_error (GetDocument e (tick s) (Base path @ ''_chunk_0''))))
                (sha256hex e c)
      then ((h, tick (tick s)), Ok \<lparr>ResultID = Base path, ChunkCount = 0\<rparr>)
      else Index e r (fileMetadata h path (sha256hex e c))
             (if snd (ignoring_error (GetDocument e s (Base path))) \<noteq> None
                 \<or> snd (ignoring_error (GetDocument e (tick s) (Base path @ ''_chunk_0''))) \<noteq> None
              then fst (DeleteDocumentAndChunks e (tick (tick s)) (Base path))
              else tick (tick s))
             c (Some (fresh h)) (Base path))"
  using assms
  by (simp add: IndexFile_def Let_def GetDocument_read make_map_def fileMetadata_def)

lemma IndexFile_skip_doc:
  assumes "ReadFile e path = Inr c" "\<not> fails e (stmts s)"
    and "row_has_checksum s (Base path) (sha256hex e c)"
  shows "IndexFile e r h s path = ((h, tick s), Ok \<lparr>ResultID = Base path, ChunkCount = 0\<rparr>)"
  using checksum_matches_read [OF assms(3,2)] by (simp add: IndexFile_unfold [OF assms(1)])

lemma IndexFile_skip_chunk:
  assumes "ReadFile e path = Inr c" "\<not> fails e (stmts s + 1)"
    and "row_has_checksum s (Base path @ ''_chunk_0'') (sha256hex e c)"
  shows "IndexFile e r h s path = ((h, tick s), Ok \<lparr>ResultID = Base path, ChunkCount = 0\<rparr>)
       \<or> IndexFile e r h s path = ((h, tick (tick s)), Ok \<lparr>ResultID = Base path, ChunkCount = 0\<rparr>)"
proof -
  from assms(2,3) have "row_has_checksum (tick s) (Base path @ ''_chunk_0'') (sha256hex e c)"
    "\<not> fails e (stmts (tick s))" by (simp_all add: row_has_checksum_def)
  from checksum_matches_read [OF this] show ?thesis
    by (simp add: IndexFile_unfold [OF assms(1)])
qed

lemma DeleteDocument_only_removes:
  "documents s k = None \<Longrightarrow> documents (fst (DeleteDocument e s k')) k = None"
  using DeleteDocument_outcome [where e = e and s = s and id' = k']
  by (cases "snd (DeleteDocument e s k')") auto

lemma DeleteDocument_no_fault:
  "\<forall>n. \<not> fails e n \<Longrightarrow> documents (fst (DeleteDocument e s k)) k = None"
  by (simp add: DeleteDocument_def Let_def)

lemma deleteChunks_only_removes:
  "documents s k = None \<Longrightarrow> documents (fst (deleteChunks e s id' i deleted)) k = None"
proof (induction e s id' i deleted rule: deleteChunks.induct)
  case (1 e s id' i deleted)
  show ?case
  proof (cases "i < 10000")
    case False
    with 1(2) show ?thesis by (simp add: deleteChunks.simps [of e s id' i deleted])
  next
    case True
    obtain d where g: "ignoring_error (GetDocument e s (chunkID id' i)) = (tick s, d)"
      by (simp add: GetDocument_read)
    show ?thesis
    proof (cases d)
      case None
      with True g 1(2) show ?thesis by (simp add: deleteChunks.simps [of e s id' i deleted])
    next
      case (Some doc)
      from 1(2) have "documents (fst (DeleteDocument e (tick s) (chunkID id' i))) k = None"
        by (intro DeleteDocument_only_removes) simp
      from "1.IH" [OF True g [symmetric] Some this] True g Some
      show ?thesis by (simp add: deleteChunks.simps [of e s id' i deleted])
    qed
  qed
qed

lemma deleteChunks_removes_first:
  assumes "\<forall>n. \<not> fails e n" "i < 10000"
  shows "documents (fst (deleteChunks e s id' i deleted)) (chunkID id' i) = None"
proof -
  obtain d where g: "ignoring_error (GetDocument e s (chunkID id' i)) = (tick s, d)"
    by (simp add: GetDocument_read)
  show ?thesis
  proof (cases d)
    case None
    with g assms have "documents s (chunkID id' i) = None"
      by (simp add: GetDocument_read split: option.splits)
    with None g assms(2) show ?thesis by (simp add: deleteChunks.simps [of e s id' i deleted])
  next
    case (Some doc)
    from assms(1) have "documents (fst (DeleteDocument e (tick s) (chunkID id' i))) (chunkID id' i) = None"
      by (rule DeleteDocument_no_fault)
    then have "documents (fst (deleteChunks e (fst (DeleteDocument e (tick s) (chunkID id' i))) id' (i + 1)
                  (deleted + 1))) (chunkID id' i) = None"
      by (rule deleteChunks_only_removes)
    with Some g assms(2) show ?thesis by (simp add: deleteChunks.simps [of e s id' i deleted])
  qed
qed

lemma DeleteDocumentAndChunks_removes:
  assumes nf: "\<forall>n. \<not> fails e n"
  shows "documents (fst (DeleteDocumentAndChunks e s id')) id' = None
       \<and> documents (fst (DeleteDocumentAndChunks e s id')) (id' @ ''_chunk_0'') = None"
proof -
  obtain d where g: "ignoring_error (GetDocument e s id') = (tick s, d)"
    by (simp add: GetDocument_read)
  show ?thesis
  proof (cases d)
    case None
    with g nf have "documents (tick s) id' = None"
      by (simp add: GetDocument_read split: option.splits)
    then have "documents (fst (deleteChunks e (tick s) id' 0 0)) id' = None"
      by (rule deleteChunks_only_removes)
    moreover from deleteChunks_removes_first [OF nf, of 0 "tick s" id' 0]
    have "documents (fst (deleteChunks e (tick s) id' 0 0)) (id' @ ''_chunk_0'') = None"
      by (simp add: chunkID_0)
    ultimately show ?thesis using None g by (simp add: DeleteDocumentAndChunks_def)
  next
    case (Some doc)
    let ?s = "fst (DeleteDocument e (tick s) id')"
    from nf have "documents ?s id' = None" by (rule DeleteDocument_no_fault)
    then have "documents (fst (deleteChunks e ?s id' 0 1)) id' = None"
      by (rule deleteChunks_only_removes)
    moreover from deleteChunks_removes_first [OF nf, of 0 ?s id' 1]
    have "documents (fst (deleteChunks e ?s id' 0 1)) (id' @ ''_chunk_0'') = None"
      by (simp add: chunkID_0)
    ultimately show ?thesis using Some g by (simp add: DeleteDocumentAndChunks_def)
  qed
qed

lemma read_same:
  "\<forall>n. \<not> fails e n \<Longrightarrow> documents s' k = documents s k \<Longrightarrow>
     snd (ignoring_error (GetDocument e s' k)) = snd (ignoring_error (GetDocument e s k))"
  by (simp add: GetDocument_read)

lemma read_None:
  "\<forall>n. \<not> fails e n \<Longrightarrow> snd (ignoring_error (GetDocument e s k)) = None \<longleftrightarrow> documents s k = None"
  by (simp add: GetDocument_read split: option.splits)

lemma fileMetadata_contents:
  "contents (fileMetadata h path checksum) (Some (fresh h))
     = Some [''source'' \<mapsto> path, ''filename'' \<mapsto> Base path, ''checksum'' \<mapsto> checksum]"
  by (simp add: fileMetadata_def make_map_def assign_def contents_def)

lemma fileMetadata_fresh: "fresh (fileMetadata h path checksum) = fresh h + 1"
  by (simp add: fileMetadata_def make_map_def assign_def)

lemma chunkMetadata_checksum:
  "chunkMetadata (Some m) id' i n ''checksum'' = m ''checksum''"
  by (simp add: chunkMetadata_def)

lemma Index_small_stored:
  assumes ok: "Index e r h s c md id0 = ((h', s'), Ok res)" and id0: "id0 \<noteq> []"
    and small: "int (length c) \<le> chunkSize r"
  shows "\<exists>row. documents s' id0 = Some row \<and> metadata row = contents h md"
proof -
  from ok have c: "c \<noteq> []" by (auto simp: Index_def)
  from ok c id0 small obtain embedding where em: "Embed e c = Inr embedding"
    by (cases "Embed e c") (auto simp: Index_def)
  obtain s1 res1 where ad: "AddDocument e s id0 c (contents h md) embedding = (s1, res1)"
    by (cases "AddDocument e s id0 c (contents h md) embedding")
  with ok c id0 small em have r: "res1 = Inr ()" "s' = s1"
    by (cases res1; auto simp: Index_def)+
  from AddDocument_outcome [where e = e and s = s and id' = id0 and c = c and md = "contents h md"
      and embedding = embedding] ad r
  show ?thesis by simp
qed

lemma Index_large_stored:
  assumes ok: "Index e r h s c md id0 = ((h', s'), Ok res)" and id0: "id0 \<noteq> []"
    and large: "\<not> int (length c) \<le> chunkSize r"
  shows "\<exists>chunks. chunkText r c = Inr chunks
           \<and> storeChunks e h s md id0 (length chunks) 0 chunks = ((h', s'), Inr ())
           \<and> res = \<lparr>ResultID = id0, ChunkCount = int (length chunks)\<rparr>"
proof -
  from ok have c: "c \<noteq> []" by (auto simp: Index_def)
  from ok c id0 large obtain chunks where ct: "chunkText r c = Inr chunks"
    by (cases "chunkText r c") (auto simp: Index_def)
  obtain hs sr where sc: "storeChunks e h s md id0 (length chunks) 0 chunks = (hs, sr)"
    by (cases "storeChunks e h s md id0 (length chunks) 0 chunks")
  with ok c id0 large ct have "sr = Inr ()" "hs = (h', s')"
      "res = \<lparr>ResultID = id0, ChunkCount = int (length chunks)\<rparr>"
    by (cases sr; auto simp: Index_def)+
  with ct sc show ?thesis by simp
qed

lemma IndexFile_twice:
  assumes nf: "\<forall>n. \<not> fails e n" and first: "IndexFile e r h s path = ((h1, s1), Ok res)"
  shows "\<exists>h2 s2. IndexFile e r h1 s1 path = ((h2, s2), Ok \<lparr>ResultID = Base path, ChunkCount = 0\<rparr>)
           \<and> same_tables s1 s2"
proof -
  from first obtain c where rf: "ReadFile e path = Inr c"
    by (cases "ReadFile e path") (auto simp: IndexFile_def)
  let ?id = "Base path" and ?cs = "sha256hex e c"
  let ?c0 = "Base path @ ''_chunk_0''"
  let ?read = "\<lambda>s k. snd (ignoring_error (GetDocument e s k))"
  have K: ?thesis if "checksum_matches (?read s1 ?id) ?cs \<or> checksum_matches (?read (tick s1) ?c0) ?cs"
    using that by (auto simp: IndexFile_unfold [OF rf])
  have R: "row_has_checksum s' k ?cs \<Longrightarrow> checksum_matches (?read s' k) ?cs" for s' k
    using checksum_matches_read nf by blast
  show ?thesis
  proof (cases "checksum_matches (?read s ?id) ?cs")
    case True
    with first have "s1 = tick s" by (simp add: IndexFile_unfold [OF rf])
    with True read_same [OF nf, of s1 ?id s] show ?thesis by (intro K) simp
  next
    case m1: False
    show ?thesis
    proof (cases "checksum_matches (?read (tick s) ?c0) ?cs")
      case True
      with m1 first have "s1 = tick (tick s)" by (simp add: IndexFile_unfold [OF rf])
      with True read_same [OF nf, of "tick s1" ?c0 "tick s"] show ?thesis by (intro K) simp
    next
      case m2: False
      define sa where "sa = (if ?read s ?id \<noteq> None \<or> ?read (tick s) ?c0 \<noteq> None
              then fst (DeleteDocumentAndChunks e (tick (tick s)) ?id) else tick (tick s))"
      let ?fm = "fileMetadata h path ?cs"
      from m1 m2 first have ix: "Index e r ?fm sa c (Some (fresh h)) ?id = ((h1, s1), Ok res)"
        by (simp add: IndexFile_unfold [OF rf] sa_def)
      have idne: "?id \<noteq> []" by (rule Base_nonempty)
      from ix have cne: "c \<noteq> []" by (auto simp: Index_def)
      show ?thesis
      proof (cases "int (length c) \<le> chunkSize r")
        case True
        from Index_small_stored [OF ix idne True] obtain row where
          "documents s1 ?id = Some row" "metadata row = contents ?fm (Some (fresh h))" by blast
        then have "row_has_checksum s1 ?id ?cs"
          by (simp add: row_has_checksum_def fileMetadata_contents)
        then show ?thesis by (intro K disjI1 R)
      next
        case large: False
        from Index_large_stored [OF ix idne large] obtain chunks where
          ct: "chunkText r c = Inr chunks"
          and sc: "storeChunks e ?fm sa (Some (fresh h)) ?id (length chunks) 0 chunks = ((h1, s1), Inr ())"
          by blast
        show ?thesis
        proof (cases chunks)
          case (Cons chunk rest)
          have al: "\<forall>a. Some (fresh h) = Some a \<longrightarrow> a < fresh ?fm" by (simp add: fileMetadata_fresh)
          from storeChunks_stored [OF sc al, of 0] Cons obtain row where
            "documents s1 (chunkID ?id 0) = Some row"
            "metadata row = Some (chunkMetadata (contents ?fm (Some (fresh h))) ?id 0 (length chunks))"
            by auto
          then have "row_has_checksum (tick s1) ?c0 ?cs"
            by (simp add: row_has_checksum_def fileMetadata_contents chunkMetadata_checksum chunkID_0)
          then show ?thesis by (intro K disjI2 R)
        next
          case Nil
          with sc have hs: "h1 = ?fm" "s1 = sa" by simp_all
          have gone: "documents sa ?id = None \<and> documents sa ?c0 = None"
          proof (cases "?read s ?id \<noteq> None \<or> ?read (tick s) ?c0 \<noteq> None")
            case True
            then show ?thesis
              unfolding sa_def using DeleteDocumentAndChunks_removes [OF nf] by simp
          next
            case False
            then have "documents s ?id = None" "documents (tick s) ?c0 = None"
              using read_None [OF nf] by simp_all
            with False show ?thesis by (simp add: sa_def)
          qed
          with hs have n1: "?read s1 ?id = None" and n2: "?read (tick s1) ?c0 = None"
            using read_None [OF nf] by simp_all
          from cne large ct Nil
          have "Index e r (fileMetadata h1 path ?cs) (tick (tick s1)) c (Some (fresh h1)) ?id
                  = ((fileMetadata h1 path ?cs, tick (tick s1)), Ok \<lparr>ResultID = ?id, ChunkCount = 0\<rparr>)"
            using idne by (simp add: Index_def)
          with n1 n2 show ?thesis
            by (simp add: IndexFile_unfold [OF rf] checksum_matches_def)
        qed
      qed
    qed
  qed
qed

text \<open>
  Claim C2 (an unchanged file is skipped).  When the file can be read and the store holds a
  document of the id \<open>Base path\<close>, or the chunk \<open>Base path_chunk_0\<close>, whose metadata gives
  the checksum of the file's bytes, and the query that reads that row does not fail, then
  \<open>IndexFile\<close> returns that id with a chunk count of 0 and leaves the three tables and the
  heap as they are.  Hence, when no database call fails, a call of \<open>IndexFile\<close> right after
  one that succeeded on the same bytes returns a chunk count of 0 and leaves the tables
  as they are.
\<close>

theorem IndexFile_unchanged_is_skipped:
  "(ReadFile e path = Inr c
      \<and> ((\<not> fails e (stmts s) \<and> row_has_checksum s (Base path) (sha256hex e c))
         \<or> (\<not> fails e (stmts s + 1) \<and> row_has_checksum s (Base path @ ''_chunk_0'') (sha256hex e c)))
      \<longrightarrow> snd (IndexFile e r h s path) = Ok \<lparr>ResultID = Base path, ChunkCount = 0\<rparr>
          \<and> fst (fst (IndexFile e r h s path)) = h
          \<and> same_tables s (snd (fst (IndexFile e r h s path))))
   \<and> ((\<forall>n. \<not> fails e n) \<and> IndexFile e r h s path = ((h1, s1), Ok res)
      \<longrightarrow> snd (IndexFile e r h1 s1 path) = Ok \<lparr>ResultID = Base path, ChunkCount = 0\<rparr>
          \<and> same_tables s1 (snd (fst (IndexFile e r h1 s1 path))))"
proof (intro conjI impI)
  assume a: "ReadFile e path = Inr c
      \<and> ((\<not> fails e (stmts s) \<and> row_has_checksum s (Base path) (sha256hex e c))
         \<or> (\<not> fails e (stmts s + 1) \<and> row_has_checksum s (Base path @ ''_chunk_0'') (sha256hex e c)))"
  then have "IndexFile e r h s path = ((h, tick s), Ok \<lparr>ResultID = Base path, ChunkCount = 0\<rparr>)
       \<or> IndexFile e r h s path = ((h, tick (tick s)), Ok \<lparr>ResultID = Base path, ChunkCount = 0\<rparr>)"
    using IndexFile_skip_doc [where e = e and path = path and c = c and s = s and r = r and h = h]
      IndexFile_skip_chunk [where e = e and path = path and c = c and s = s and r = r and h = h]
    by blast
  then show "snd (IndexFile e r h s path) = Ok \<lparr>ResultID = Base path, ChunkCount = 0\<rparr>"
    "fst (fst (IndexFile e r h s path)) = h"
    "same_tables s (snd (fst (IndexFile e r h s path)))"
    by auto
next
  assume b: "(\<forall>n. \<not> fails e n) \<and> IndexFile e r h s path = ((h1, s1), Ok res)"
  then obtain h2 s2 where
    "IndexFile e r h1 s1 path = ((h2, s2), Ok \<lparr>ResultID = Base path, ChunkCount = 0\<rparr>)"
    "same_tables s1 s2"
    using IndexFile_twice [where e = e and r = r and h = h and s = s and path = path
        and ?h1.0 = h1 and ?s1.0 = s1 and res = res] by blast
  then show "snd (IndexFile e r h1 s1 path) = Ok \<lparr>ResultID = Base path, ChunkCount = 0\<rparr>"
    "same_tables s1 (snd (fst (IndexFile e r h1 s1 path)))"
    by simp_all
qed

definition empty_heap :: heap where
  "empty_heap = \<lparr>cells = Map.empty, fresh = 0\<rparr>"

definition indexed_once :: "heap \<times> store" where
  "indexed_once = fst (IndexFile calm defaultGoldie empty_heap (New_store 3) ''/tmp/a.txt'')"

lemma Base_a_txt: "Base ''/tmp/a.txt'' = ''a.txt''"
  by (simp add: Base_def)

lemma first_IndexFile:
  "IndexFile calm defaultGoldie empty_heap (New_store 3) ''/tmp/a.txt''
     = (indexed_once, Ok \<lparr>ResultID = ''a.txt'', ChunkCount = 1\<rparr>)"
proof -
  have rf: "ReadFile calm ''/tmp/a.txt'' = Inr ''Go is a programming language''"
    by (simp add: calm_def)
  have "snd (IndexFile calm defaultGoldie empty_heap (New_store 3) ''/tmp/a.txt'')
          = Ok \<lparr>ResultID = ''a.txt'', ChunkCount = 1\<rparr>"
    unfolding IndexFile_unfold [OF rf] Base_a_txt
    by (simp add: GetDocument_read checksum_matches_def New_store_def Index_def defaultGoldie_def
        calm_def AddDocument_def tick_def rollback_def vec0_accepts_def unsupportedFloat_def Let_def)
  then show ?thesis
    by (cases "IndexFile calm defaultGoldie empty_heap (New_store 3) ''/tmp/a.txt''")
      (simp add: indexed_once_def)
qed

lemma indexed_once_row:
  "documents (snd indexed_once) ''a.txt''
     = Some \<lparr>content = ''Go is a programming language'',
             metadata = Some [''source'' \<mapsto> ''/tmp/a.txt'', ''filename'' \<mapsto> ''a.txt'',
                              ''checksum'' \<mapsto> ''sha256 of Go is a programming language''],
             created_at = 3\<rparr>"
proof -
  have rf: "ReadFile calm ''/tmp/a.txt'' = Inr ''Go is a programming language''"
    by (simp add: calm_def)
  show ?thesis
    unfolding indexed_once_def IndexFile_unfold [OF rf] Base_a_txt
    by (simp add: GetDocument_read checksum_matches_def New_store_def Index_def defaultGoldie_def
        calm_def AddDocument_def tick_def rollback_def vec0_accepts_def unsupportedFloat_def Let_def
        fileMetadata_def make_map_def assign_def contents_def empty_heap_def Base_a_txt)
qed

theorem IndexFile_unchanged_is_skipped_witness:
  "(\<forall>n. \<not> fails calm n)
   \<and> IndexFile calm defaultGoldie empty_heap (New_store 3) ''/tmp/a.txt''
       = (indexed_once, Ok \<lparr>ResultID = ''a.txt'', ChunkCount = 1\<rparr>)
   \<and> snd (IndexFile calm defaultGoldie (fst indexed_once) (snd indexed_once) ''/tmp/a.txt'')
       = Ok \<lparr>ResultID = ''a.txt'', ChunkCount = 0\<rparr>
   \<and> same_tables (snd indexed_once)
        (snd (fst (IndexFile calm defaultGoldie (fst indexed_once) (snd indexed_once) ''/tmp/a.txt'')))
   \<and> ReadFile calm ''/tmp/a.txt'' = Inr ''Go is a programming language''
   \<and> \<not> fails calm (stmts (snd indexed_once))
   \<and> row_has_checksum (snd indexed_once) (Base ''/tmp/a.txt'')
        (sha256hex calm ''Go is a programming language'')"
proof -
  have nf: "\<forall>n. \<not> fails calm n" by (simp add: calm_def)
  have rf: "ReadFile calm ''/tmp/a.txt'' = Inr ''Go is a programming language''"
    by (simp add: calm_def)
  have first: "IndexFile calm defaultGoldie empty_heap (New_store 3) ''/tmp/a.txt''
       = ((fst indexed_once, snd indexed_once), Ok \<lparr>ResultID = ''a.txt'', ChunkCount = 1\<rparr>)"
    by (simp add: first_IndexFile)
  from IndexFile_unchanged_is_skipped [where e = calm and r = defaultGoldie and h = empty_heap
      and s = "New_store 3" and path = "''/tmp/a.txt''" and ?h1.0 = "fst indexed_once"
      and ?s1.0 = "snd indexed_once" and res = "\<lparr>ResultID = ''a.txt'', ChunkCount = 1\<rparr>"] nf first
  have second: "snd (IndexFile calm defaultGoldie (fst indexed_once) (snd indexed_once) ''/tmp/a.txt'')
       = Ok \<lparr>ResultID = ''a.txt'', ChunkCount = 0\<rparr>"
    "same_tables (snd indexed_once)
        (snd (fst (IndexFile calm defaultGoldie (fst indexed_once) (snd indexed_once) ''/tmp/a.txt'')))"
    by (simp_all add: Base_a_txt)
  have row: "row_has_checksum (snd indexed_once) (Base ''/tmp/a.txt'')
        (sha256hex calm ''Go is a programming language'')"
    by (simp add: row_has_checksum_def Base_a_txt indexed_once_row) (simp add: calm_def)
  from nf first_IndexFile second rf row show ?thesis by simp
qed

section \<open>The queue (internal/queue/queue.go)\<close>

text \<open>
  The worker runs \<open>processNextJob\<close> at every tick; a handler enqueues a job or clears the
  queue.  Each of these is one step on the heap and the store.  The JSON encoders and
  decoders of the parameters and results, and the directory scan, belong to the
  environment.  A panic inside a job is caught by the worker's \<^verbatim>\<open>recover\<close>, which starts the
  worker again: the step ends there and the job stays as it is.
\<close>

definition EnqueueIndexFile :: "env \<Rightarrow> store \<Rightarrow> string \<Rightarrow> store \<times> (error + string)" where
  "EnqueueIndexFile e s path =
     (let id' = uuid e (stmts s) in
      case marshalFileParams e path of
        Inl err \<Rightarrow> (s, Inl (''marshaling params: '' @ err))
      | Inr params \<Rightarrow>
          (case CreateJob e s id' JobTypeIndexFile params of
             (s, Inl err) \<Rightarrow> (s, Inl (''creating job: '' @ err))
           | (s, Inr u) \<Rightarrow> (s, Inr id')))"

definition EnqueueIndexFileWithParent ::
  "env \<Rightarrow> store \<Rightarrow> string \<Rightarrow> string \<Rightarrow> store \<times> (error + string)" where
  "EnqueueIndexFileWithParent e s path parentID =
     (let id' = uuid e (stmts s) in
      case marshalFileParams e path of
        Inl err \<Rightarrow> (s, Inl (''marshaling params: '' @ err))
      | Inr params \<Rightarrow>
          (case CreateJobWithParent e s id' JobTypeIndexFile params parentID of
             (s, Inl err) \<Rightarrow> (s, Inl (''creating job: '' @ err))
           | (s, Inr u) \<Rightarrow> (s, Inr id')))"

definition EnqueueIndexDirectory ::
  "env \<Rightarrow> store \<Rightarrow> string \<Rightarrow> string \<Rightarrow> bool \<Rightarrow> store \<times> (error + string)" where
  "EnqueueIndexDirectory e s directory pattern recursive =
     (let id' = uuid e (stmts s) in
      case marshalDirParams e directory pattern recursive of
        Inl err \<Rightarrow> (s, Inl (''marshaling params: '' @ err))
      | Inr params \<Rightarrow>
          (case CreateJob e s id' JobTypeIndexDir params of
             (s, Inl err) \<Rightarrow> (s, Inl (''creating job: '' @ err))
           | (s, Inr u) \<Rightarrow> (s, Inr id')))"

definition processIndexFile :: "env \<Rightarrow> Goldie \<Rightarrow> heap \<Rightarrow> store \<Rightarrow> Job \<Rightarrow> heap \<times> store" where
  "processIndexFile e r h s job =
     (case unmarshalFileParams e (Params job) of
        Inl err \<Rightarrow> (h, fst (UpdateJobError e s (JobID job) (''invalid params: '' @ err)))
      | Inr path \<Rightarrow>
          (let s = fst (UpdateJobProgress e s (JobID job) 0 1) in
           case IndexFile e r h s path of
             ((h, s), Err err) \<Rightarrow>
               (h, fst (UpdateJobError e s (JobID job) (''indexing failed: '' @ err)))
           | ((h, s), Panic p) \<Rightarrow> (h, s)
           | ((h, s), Ok result) \<Rightarrow>
               (case marshalFileResult e (ResultID result) (ChunkCount result) path of
                  Inl err \<Rightarrow>
                    (h, fst (UpdateJobError e s (JobID job) (''failed to marshal result: '' @ err)))
                | Inr resultJSON \<Rightarrow>
                    (let s = fst (UpdateJobProgress e s (JobID job) 1 1)
                     in (h, fst (UpdateJobResult e s (JobID job) resultJSON))))))"

fun enqueueChildren :: "env \<Rightarrow> store \<Rightarrow> string \<Rightarrow> string list \<Rightarrow> string list \<Rightarrow> store \<times> string list" where
  \<comment> \<open>The loop over \<^verbatim>\<open>scanResult.Files\<close>: a child job per file; a file whose job cannot be
      created is passed over.\<close>
  "enqueueChildren e s parentID childJobIDs [] = (s, childJobIDs)"
| "enqueueChildren e s parentID childJobIDs (file # files) =
     (case EnqueueIndexFileWithParent e s file parentID of
        (s, Inl err) \<Rightarrow> enqueueChildren e s parentID childJobIDs files
      | (s, Inr childID) \<Rightarrow> enqueueChildren e s parentID (childJobIDs @ [childID]) files)"

definition processIndexDirectory :: "env \<Rightarrow> heap \<Rightarrow> store \<Rightarrow> Job \<Rightarrow> heap \<times> store" where
  "processIndexDirectory e h s job =
     (case unmarshalDirParams e (Params job) of
        Inl err \<Rightarrow> (h, fst (UpdateJobError e s (JobID job) (''invalid params: '' @ err)))
      | Inr (directory, pattern, recursive) \<Rightarrow>
          (case ScanDirectory e directory pattern recursive of
             Inl err \<Rightarrow> (h, fst (UpdateJobError e s (JobID job) (''scanning failed: '' @ err)))
           | Inr files \<Rightarrow>
               (let fileCount = int (length files);
                    s = fst (UpdateJobProgress e s (JobID job) 0 fileCount);
                    (s, childJobIDs) = enqueueChildren e s (JobID job) [] files
                in case marshalDirResult e fileCount childJobIDs directory pattern recursive of
                     Inl err \<Rightarrow>
                       (h, fst (UpdateJobError e s (JobID job) (''failed to marshal result: '' @ err)))
                   | Inr resultJSON \<Rightarrow> (h, fst (UpdateJobResult e s (JobID job) resultJSON)))))"

definition processNextJob :: "env \<Rightarrow> Goldie \<Rightarrow> heap \<Rightarrow> store \<Rightarrow> heap \<times> store" where
  "processNextJob e r h s =
     (case GetNextPendingJob e s of
        (s, Inl err) \<Rightarrow> (h, s)
      | (s, Inr None) \<Rightarrow> (h, s)
      | (s, Inr (Some job)) \<Rightarrow>
          if Type job = JobTypeIndexFile then processIndexFile e r h s job
          else if Type job = JobTypeIndexDir then processIndexDirectory e h s job
          else (h, fst (UpdateJobError e s (JobID job) (''unknown job type: '' @ Type job))))"

definition handleClearQueue :: "env \<Rightarrow> store \<Rightarrow> (string \<rightharpoonup> arg) \<Rightarrow> store \<times> (error + int)" where
  \<comment> \<open>\<open>clear_queue\<close>: the jobs of one status, or all of them, are deleted.\<close>
  "handleClearQueue e s args =
     (let st = (case args ''status'' of Some (StringArg x) \<Rightarrow> x | _ \<Rightarrow> []) in
      if st = [] then (s, Inl ''status is required (queued, completed, failed, or all)'')
      else if st \<notin> set [''queued'', ''completed'', ''failed'', ''all'']
      then (s, Inl ''invalid status: must be queued, completed, failed, or all'')
      else (case DeleteJobs e s st of
              (s, Inl err) \<Rightarrow> (s, Inl (''clearing queue failed: '' @ err))
            | (s, Inr n) \<Rightarrow> (s, Inr n)))"

datatype queue_step =
    Enqueue_file string
  | Enqueue_directory string string bool
  | Worker_tick
  | Clear_queue "string \<rightharpoonup> arg"

fun apply_step :: "env \<Rightarrow> Goldie \<Rightarrow> heap \<times> store \<Rightarrow> queue_step \<Rightarrow> heap \<times> store" where
  "apply_step e r (h, s) (Enqueue_file path) = (h, fst (EnqueueIndexFile e s path))"
| "apply_step e r (h, s) (Enqueue_directory directory pattern recursive) =
     (h, fst (EnqueueIndexDirectory e s directory pattern recursive))"
| "apply_step e r (h, s) Worker_tick = processNextJob e r h s"
| "apply_step e r (h, s) (Clear_queue args) = (h, fst (handleClearQueue e s args))"

definition run_queue :: "env \<Rightarrow> Goldie \<Rightarrow> int \<Rightarrow> queue_step list \<Rightarrow> heap \<times> store" where
  \<comment> \<open>The state after a sequence of steps on a fresh database.\<close>
  "run_queue e r d steps = foldl (apply_step e r) (\<lparr>cells = Map.empty, fresh = 0\<rparr>, New_store d) steps"

subsection \<open>Terminal statuses\<close>












text \<open>The indexer does not touch the jobs table.\<close>

lemma documents_ops_jobs [simp]:
  "jobs (fst (AddDocument e s id' c md embedding)) = jobs s"
  "jobs (fst (GetDocument e s id')) = jobs s"
  "jobs (fst (DeleteDocument e s id')) = jobs s"
  "jobs (fst (ignoring_error (GetDocument e s id'))) = jobs s"
  by (simp_all add: AddDocument_def GetDocument_def DeleteDocument_def ignoring_error_def Let_def)

lemma deleteChunks_jobs [simp]: "jobs (fst (deleteChunks e s id' i deleted)) = jobs s"
proof (induction e s id' i deleted rule: deleteChunks.induct)
  case (1 e s id' i deleted)
  obtain s1 d where g: "ignoring_error (GetDocument e s (chunkID id' i)) = (s1, d)"
    by (cases "ignoring_error (GetDocument e s (chunkID id' i))")
  from documents_ops_jobs(4) [of e s "chunkID id' i"] g have s1: "jobs s1 = jobs s" by simp
  show ?case
  proof (cases "i < 10000")
    case False
    then show ?thesis by (subst deleteChunks.simps) simp
  next
    case True
    show ?thesis
    proof (cases d)
      case None
      with True g s1 show ?thesis by (subst deleteChunks.simps) simp
    next
      case (Some doc)
      with True g s1 1 [OF True g [symmetric] Some] show ?thesis
        by (subst deleteChunks.simps) simp
    qed
  qed
qed

lemma DeleteDocumentAndChunks_jobs [simp]: "jobs (fst (DeleteDocumentAndChunks e s id')) = jobs s"
proof -
  obtain s1 d where g: "ignoring_error (GetDocument e s id') = (s1, d)"
    by (cases "ignoring_error (GetDocument e s id')")
  from documents_ops_jobs(4) [of e s id'] g have s1: "jobs s1 = jobs s" by simp
  with g show ?thesis by (cases d) (simp_all add: DeleteDocumentAndChunks_def)
qed

lemma storeChunks_jobs [simp]: "jobs (snd (fst (storeChunks e h s md id' n i chunks))) = jobs s"
proof (induction chunks arbitrary: h s i)
  case Nil
  show ?case by simp
next
  case (Cons chunk rest)
  obtain h1 m where nm: "newChunkMeta h md id' i n = (h1, m)" by (cases "newChunkMeta h md id' i n")
  show ?case
  proof (cases "Embed e chunk")
    case (Inl err)
    with nm show ?thesis by simp
  next
    case (Inr embedding)
    obtain s1 res where ad: "AddDocument e s (chunkID id' i) chunk (contents h1 (Some m)) embedding = (s1, res)"
      by (cases "AddDocument e s (chunkID id' i) chunk (contents h1 (Some m)) embedding")
    from documents_ops_jobs(1) [of e s "chunkID id' i" chunk "contents h1 (Some m)" embedding] ad
    have s1: "jobs s1 = jobs s" by simp
    show ?thesis
    proof (cases res)
      case (Inl err)
      with nm Inr ad s1 show ?thesis by simp
    next
      case (Inr u)
      with nm \<open>Embed e chunk = Inr embedding\<close> ad s1 Cons.IH [of h1 s1 "i + 1"] show ?thesis by simp
    qed
  qed
qed

lemma Index_jobs [simp]: "jobs (snd (fst (Index e r h s c md id0))) = jobs s"
proof -
  define k where "k = (if id0 = [] then uuid e (stmts s) else id0)"
  show ?thesis
  proof (cases "c = []")
    case True
    then show ?thesis by (simp add: Index_def)
  next
    case False
    show ?thesis
    proof (cases "int (length c) \<le> chunkSize r")
      case True
      show ?thesis
      proof (cases "Embed e c")
        case (Inl err)
        with False True show ?thesis by (simp add: Index_def)
      next
        case (Inr embedding)
        obtain s1 res where ad: "AddDocument e s k c (contents h md) embedding = (s1, res)"
          by (cases "AddDocument e s k c (contents h md) embedding")
        from documents_ops_jobs(1) [of e s k c "contents h md" embedding] ad
        have "jobs s1 = jobs s" by simp
        with False True Inr ad show ?thesis
          by (cases res) (simp_all add: Index_def k_def [symmetric])
      qed
    next
      case big: False
      show ?thesis
      proof (cases "chunkText r c")
        case (Inl p)
        with False big show ?thesis by (simp add: Index_def)
      next
        case (Inr chunks)
        obtain hs res where st: "storeChunks e h s md k (length chunks) 0 chunks = (hs, res)"
          by (cases "storeChunks e h s md k (length chunks) 0 chunks")
        from storeChunks_jobs [of e h s md k "length chunks" 0 chunks] st
        have "jobs (snd hs) = jobs s" by simp
        with False big Inr st show ?thesis
          by (cases res) (simp_all add: Index_def k_def [symmetric])
      qed
    qed
  qed
qed


















subsection \<open>Runs of the queue\<close>

text \<open>
  The jobs table is written by \<open>index_file\<close> and \<open>index_directory\<close> (which enqueue), by the
  worker and by \<open>clear_queue\<close>; \<open>job_status\<close> and \<open>list_jobs\<close> only read it, and
  \<open>UpdateJobStatus\<close> has no caller.  A run is a list of such steps on a new database.
\<close>

definition state_after :: "env \<Rightarrow> Goldie \<Rightarrow> int \<Rightarrow> queue_step list \<Rightarrow> nat \<Rightarrow> store" where
  \<comment> \<open>The store after the first \<open>n\<close> steps of a run.\<close>
  "state_after e r d steps n = snd (run_queue e r d (take n steps))"







definition queue_run :: "queue_step list" where
  \<comment> \<open>A file that exists and one that does not are enqueued and worked off; then the
      completed jobs are cleared.\<close>
  "queue_run = [Enqueue_file ''/tmp/a.txt'', Worker_tick, Enqueue_file ''/tmp/b.txt'', Worker_tick,
                Worker_tick, Clear_queue [''status'' \<mapsto> StringArg ''completed'']]"

lemma queue_run_statuses:
  "map (\<lambda>n. map (\<lambda>j. (JobID j, Status j)) (jobs (state_after calm defaultGoldie 3 queue_run n))) [0..<7]
   = [[],
      [(''u'', ''queued'')],
      [(''u'', ''completed'')],
      [(''u'', ''completed''), (''uuuuuuuuuuuuuuu'', ''queued'')],
      [(''u'', ''completed''), (''uuuuuuuuuuuuuuu'', ''failed'')],
      [(''u'', ''completed''), (''uuuuuuuuuuuuuuu'', ''failed'')],
      [(''uuuuuuuuuuuuuuu'', ''failed'')]]"
  by code_simp


end
